theory Spec2Isabelle
  imports Complex_Main "HOL-Library.Word" "HOL-Library.AList"
begin

section \<open>Strings\<close>

text \<open>
  A string of the program is a sequence of UTF-16 code units. String literals of the
  source are written with \<open>js\<close>; the fixed messages that the handlers put into their
  responses are kept as plain literals.
\<close>

type_synonym cu = "16 word"
type_synonym jsstring = "cu list"

definition js :: "string \<Rightarrow> jsstring" where
  "js = map of_char"

text \<open>
  White space and line terminators of the language. \<open>String.prototype.trim\<close>, the
  leading-blank removal of \<open>parseInt\<close> and the class \<open>\s\<close> of regular expressions all
  use the union of the two.
\<close>

definition isWhiteSpace :: "cu \<Rightarrow> bool" where
  "isWhiteSpace c \<longleftrightarrow>
     c = 0x09 \<or> c = 0x0B \<or> c = 0x0C \<or> c = 0x20 \<or> c = 0xA0 \<or> c = 0x1680 \<or>
     (0x2000 \<le> c \<and> c \<le> 0x200A) \<or> c = 0x202F \<or> c = 0x205F \<or> c = 0x3000 \<or> c = 0xFEFF"

definition isLineTerminator :: "cu \<Rightarrow> bool" where
  "isLineTerminator c \<longleftrightarrow> c = 0x0A \<or> c = 0x0D \<or> c = 0x2028 \<or> c = 0x2029"

definition isStrWhiteSpace :: "cu \<Rightarrow> bool" where
  "isStrWhiteSpace c \<longleftrightarrow> isWhiteSpace c \<or> isLineTerminator c"

definition trimStart :: "jsstring \<Rightarrow> jsstring" where
  "trimStart s = dropWhile isStrWhiteSpace s"

definition trimEnd :: "jsstring \<Rightarrow> jsstring" where
  "trimEnd s = rev (dropWhile isStrWhiteSpace (rev s))"

definition trim :: "jsstring \<Rightarrow> jsstring" where
  "trim s = trimEnd (trimStart s)"

section \<open>The regular expression of the email check\<close>

text \<open>
  The pattern \<^verbatim>\<open>/^[^\s@]+@[^\s@]+\.[^\s@]+$/\<close> is a sequence of terms, each a set of
  code units that is matched once or, under \<open>+\<close>, once or more. \<open>matchHere\<close> is the
  backtracking matcher for such a sequence: a \<open>+\<close> term first tries to take one more
  code unit and falls back to the rest of the pattern. The pattern is anchored at both
  ends and has no flags, so \<open>test\<close> succeeds exactly when the whole string is consumed
  from its first code unit.
\<close>

datatype rxterm = One "cu \<Rightarrow> bool" | OneOrMore "cu \<Rightarrow> bool"

fun matchHere :: "rxterm list \<Rightarrow> jsstring \<Rightarrow> bool" where
  "matchHere [] [] = True"
| "matchHere [] (c # cs) = False"
| "matchHere (One p # r) [] = False"
| "matchHere (One p # r) (c # cs) = (p c \<and> matchHere r cs)"
| "matchHere (OneOrMore p # r) [] = False"
| "matchHere (OneOrMore p # r) (c # cs) =
     (p c \<and> (matchHere (OneOrMore p # r) cs \<or> matchHere r cs))"

definition notSpaceAt :: "cu \<Rightarrow> bool" where
  "notSpaceAt c \<longleftrightarrow> \<not> (isStrWhiteSpace c \<or> c = 0x40)"

definition isAt :: "cu \<Rightarrow> bool" where
  "isAt c \<longleftrightarrow> c = 0x40"

definition isDot :: "cu \<Rightarrow> bool" where
  "isDot c \<longleftrightarrow> c = 0x2E"

definition emailPattern :: "rxterm list" where
  "emailPattern =
     [OneOrMore notSpaceAt, One isAt, OneOrMore notSpaceAt, One isDot, OneOrMore notSpaceAt]"

definition regexTest :: "rxterm list \<Rightarrow> jsstring \<Rightarrow> bool" where
  "regexTest pat s = matchHere pat s"

section \<open>Values of a request body\<close>

text \<open>
  \<open>express.json()\<close> leaves \<open>req.body\<close> undefined when the request carries no JSON
  body and otherwise sets it to the parsed object or array. A number is kept as a real
  (the code looks only at its type and at whether it is zero); an object is the list of
  its own properties.
\<close>

datatype jsval =
    JUndefined
  | JNull
  | JBool bool
  | JNumber real
  | JString jsstring
  | JArray "jsval list"
  | JObject "(jsstring \<times> jsval) list"

datatype exn = TypeError

fun truthy :: "jsval \<Rightarrow> bool" where
  "truthy JUndefined = False"
| "truthy JNull = False"
| "truthy (JBool b) = b"
| "truthy (JNumber x) = (x \<noteq> 0)"
| "truthy (JString s) = (s \<noteq> [])"
| "truthy (JArray xs) = True"
| "truthy (JObject kvs) = True"

fun typeof :: "jsval \<Rightarrow> string" where
  "typeof JUndefined = ''undefined''"
| "typeof JNull = ''object''"
| "typeof (JBool b) = ''boolean''"
| "typeof (JNumber x) = ''number''"
| "typeof (JString s) = ''string''"
| "typeof (JArray xs) = ''object''"
| "typeof (JObject kvs) = ''object''"

text \<open>
  Reading the property \<open>name\<close> or \<open>email\<close>: a type error on \<open>undefined\<close> and \<open>null\<close>,
  the own property of an object, and \<open>undefined\<close> wherever the property is missing
  (no array, primitive or prototype has a property of either name).
\<close>

fun getProp :: "jsval \<Rightarrow> jsstring \<Rightarrow> exn + jsval" where
  "getProp JUndefined k = Inl TypeError"
| "getProp JNull k = Inl TypeError"
| "getProp (JObject kvs) k = Inr (case map_of kvs k of None \<Rightarrow> JUndefined | Some v \<Rightarrow> v)"
| "getProp v k = Inr JUndefined"

text \<open>The method call \<open>v.trim()\<close>: only a string has the method.\<close>

fun callTrim :: "jsval \<Rightarrow> exn + jsstring" where
  "callTrim (JString s) = Inr (trim s)"
| "callTrim v = Inl TypeError"

text \<open>The expression \<open>v.k.trim()\<close>.\<close>

definition trimProp :: "jsval \<Rightarrow> jsstring \<Rightarrow> exn + jsstring" where
  "trimProp v k = (case getProp v k of Inl e \<Rightarrow> Inl e | Inr x \<Rightarrow> callTrim x)"

section \<open>Validation\<close>

text \<open>
  \<open>validateUserData\<close> of the source, with its three messages named. Each \<open>push\<close>
  appends to \<open>errors\<close>. The pattern is tested only in the \<open>else\<close> branch, where
  the email is a string.
\<close>

definition nameRequired :: string where
  "nameRequired = ''Name is required and must be a non-empty string''"

definition emailRequired :: string where
  "emailRequired = ''Email is required and must be a non-empty string''"

definition emailInvalid :: string where
  "emailInvalid = ''Email must be a valid email address''"

definition emailTest :: "jsval \<Rightarrow> bool" where
  "emailTest v = (case v of JString s \<Rightarrow> regexTest emailPattern s | _ \<Rightarrow> False)"

definition validateUserData :: "jsval \<Rightarrow> exn + (bool \<times> string list)" where
  "validateUserData data =
     (case getProp data (js ''name'') of
        Inl e \<Rightarrow> Inl e
      | Inr nm \<Rightarrow>
         (case getProp data (js ''email'') of
            Inl e \<Rightarrow> Inl e
          | Inr em \<Rightarrow>
             (let errors = [];
                  errors =
                    (if \<not> truthy nm \<or> typeof nm \<noteq> ''string'' \<or> callTrim nm = Inr []
                     then errors @ [nameRequired]
                     else errors);
                  errors =
                    (if \<not> truthy em \<or> typeof em \<noteq> ''string'' \<or> callTrim em = Inr []
                     then errors @ [emailRequired]
                     else if \<not> emailTest em
                     then errors @ [emailInvalid]
                     else errors)
              in Inr (errors = [], errors))))"

section \<open>Parsing the path segment\<close>

text \<open>
  \<open>parseInt(req.params.id)\<close> is called without a radix: leading white space is dropped,
  a sign is read, a prefix \<open>0x\<close> or \<open>0X\<close> selects radix 16 (radix 10 otherwise), and the
  longest run of digits of that radix is evaluated. A digit is a decimal digit or a
  letter of either case, \<open>a\<close> counting 10.
\<close>

definition digitValue :: "cu \<Rightarrow> nat option" where
  "digitValue c =
     (let n = unat c
      in if 0x30 \<le> n \<and> n \<le> 0x39 then Some (n - 0x30)
         else if 0x61 \<le> n \<and> n \<le> 0x7A then Some (n - 0x61 + 10)
         else if 0x41 \<le> n \<and> n \<le> 0x5A then Some (n - 0x41 + 10)
         else None)"

definition isRadixDigit :: "nat \<Rightarrow> cu \<Rightarrow> bool" where
  "isRadixDigit R c = (case digitValue c of None \<Rightarrow> False | Some d \<Rightarrow> d < R)"

definition mathInt :: "nat \<Rightarrow> jsstring \<Rightarrow> int" where
  "mathInt R Z =
     foldl (\<lambda>acc c. acc * int R + (case digitValue c of None \<Rightarrow> 0 | Some d \<Rightarrow> int d)) 0 Z"

text \<open>
  The result of \<open>parseInt\<close> is a Number: \<open>NaN\<close>, an infinity, or a finite Number, which
  here is always an integer. The integer that the digits denote is rounded to the
  nearest Number, a tie going to the even significand: below \<open>2^53\<close> the integer is
  kept; otherwise it is cut to its leading 53 binary digits, with \<open>e\<close> the number of
  digits cut off, \<open>r\<close> their value and \<open>h\<close> half a unit of the last digit kept, and rounded
  up or down. A result of \<open>2^1024\<close> or more is beyond the largest Number and gives an
  infinity. Every digit counts: the language lets an engine neglect the decimal digits
  after the twentieth, which the engine of Node does not do.
\<close>

datatype number = NaN | Infinity bool | Finite int

function bitLength :: "int \<Rightarrow> nat" where
  "bitLength n = (if n \<le> 0 then 0 else Suc (bitLength (n div 2)))"
  by pat_completeness auto
termination
  by (relation "measure nat") auto

declare bitLength.simps [simp del]

definition roundMagnitude :: "int \<Rightarrow> int option" where
  "roundMagnitude m =
     (if m < 2 ^ 53 then Some m
      else
        (let e = bitLength m - 53;
             q = m div 2 ^ e;
             r = m mod 2 ^ e;
             h = 2 ^ (e - 1);
             q' = (if h < r \<or> (r = h \<and> odd q) then q + 1 else q);
             v = q' * 2 ^ e
         in if 2 ^ 1024 \<le> v then None else Some v))"

text \<open>The Number for an integer; \<open>Infinity True\<close> is the negative infinity.\<close>

definition toNumber :: "int \<Rightarrow> number" where
  "toNumber n =
     (case roundMagnitude \<bar>n\<bar> of
        None \<Rightarrow> Infinity (n < 0)
      | Some v \<Rightarrow> Finite (if n < 0 then - v else v))"

definition parseInt :: "jsstring \<Rightarrow> number" where
  "parseInt inputString =
     (let S = trimStart inputString;
          sign = (if S \<noteq> [] \<and> hd S = 0x2D then - 1 else 1);
          S = (if S \<noteq> [] \<and> (hd S = 0x2B \<or> hd S = 0x2D) then tl S else S);
          stripPrefix = (2 \<le> length S \<and> (take 2 S = js ''0x'' \<or> take 2 S = js ''0X''));
          R = (if stripPrefix then 16 else 10);
          S = (if stripPrefix then drop 2 S else S);
          Z = takeWhile (isRadixDigit R) S
      in if Z = [] then NaN else toNumber (sign * mathInt R Z))"

section \<open>The store\<close>

text \<open>
  \<open>createdAt\<close> is a time in milliseconds. The object \<open>users\<close> is the list of its
  properties in creation order. \<open>nextId\<close> is a Number: adding 1 is exact below \<open>2^53\<close>,
  and \<open>2^53 + 1\<close> rounds back to \<open>2^53\<close>. The counter starts at 1 and only \<open>incr\<close>
  changes it, so it never leaves the range from 1 to \<open>2^53\<close>.
\<close>

type_synonym date = int

record User =
  id' :: int
  name :: jsstring
  email :: jsstring
  createdAt :: date

record state =
  users :: "(int \<times> User) list"
  nextId :: int

definition init :: state where
  "init = \<lparr>users = [], nextId = 1\<rparr>"

definition incr :: "int \<Rightarrow> int" where
  "incr n = (if n < 2 ^ 53 then n + 1 else n)"

text \<open>
  \<open>Object.values\<close> lists the properties whose key is an array index (below \<open>2^32 - 1\<close>)
  in ascending order, then the others in creation order.
\<close>

definition isArrayIndex :: "int \<Rightarrow> bool" where
  "isArrayIndex k \<longleftrightarrow> 0 \<le> k \<and> k < 2 ^ 32 - 1"

definition objectValues :: "(int \<times> User) list \<Rightarrow> User list" where
  "objectValues al =
     map snd (sort_key fst (filter (\<lambda>p. isArrayIndex (fst p)) al) @
              filter (\<lambda>p. \<not> isArrayIndex (fst p)) al)"

section \<open>Responses and route handlers\<close>

datatype body =
    Message string
  | UserList "User list"
  | UserBody User
  | ErrorBody string
  | ValidationBody string "string list"
  | EmptyBody
  | Uncaught exn

datatype response = Response (status: nat) (content: body)

text \<open>
  An exception that leaves a handler is answered by the framework with status 500.
  \<open>isNaN(id)\<close> holds for \<open>NaN\<close> alone. The keys of \<open>users\<close> come from the counter, so
  \<open>users[id]\<close> is undefined when \<open>id\<close> is an infinity.
\<close>

definition getRoot :: "state \<Rightarrow> response \<times> state" where
  "getRoot st = (Response 200 (Message ''Welcome to the API''), st)"

definition getUsers :: "state \<Rightarrow> response \<times> state" where
  "getUsers st = (Response 200 (UserList (objectValues (users st))), st)"

definition getUser :: "jsstring \<Rightarrow> state \<Rightarrow> response \<times> state" where
  "getUser idParam st =
     (case parseInt idParam of
        NaN \<Rightarrow> (Response 400 (ErrorBody ''Invalid user ID''), st)
      | Infinity negative \<Rightarrow> (Response 404 (ErrorBody ''User not found''), st)
      | Finite i \<Rightarrow>
         (case map_of (users st) i of
            None \<Rightarrow> (Response 404 (ErrorBody ''User not found''), st)
          | Some user \<Rightarrow> (Response 200 (UserBody user), st)))"

text \<open>
  In the object literal of \<open>newUser\<close> the counter is incremented before the two fields
  are trimmed.
\<close>

definition postUser :: "jsval \<Rightarrow> date \<Rightarrow> state \<Rightarrow> response \<times> state" where
  "postUser reqBody now st =
     (case validateUserData reqBody of
        Inl e \<Rightarrow> (Response 500 (Uncaught e), st)
      | Inr (isValid, errors) \<Rightarrow>
         if \<not> isValid then (Response 400 (ValidationBody ''Validation failed'' errors), st)
         else
           (let i = nextId st;
                st1 = st\<lparr>nextId := incr (nextId st)\<rparr>
            in case trimProp reqBody (js ''name'') of
                 Inl e \<Rightarrow> (Response 500 (Uncaught e), st1)
               | Inr n \<Rightarrow>
                  (case trimProp reqBody (js ''email'') of
                     Inl e \<Rightarrow> (Response 500 (Uncaught e), st1)
                   | Inr m \<Rightarrow>
                      (let newUser = \<lparr>id' = i, name = n, email = m, createdAt = now\<rparr>;
                           st2 = st1\<lparr>users := AList.update (id' newUser) newUser (users st1)\<rparr>
                       in (Response 201 (UserBody newUser), st2)))))"

definition putUser :: "jsstring \<Rightarrow> jsval \<Rightarrow> state \<Rightarrow> response \<times> state" where
  "putUser idParam reqBody st =
     (case parseInt idParam of
        NaN \<Rightarrow> (Response 400 (ErrorBody ''Invalid user ID''), st)
      | Infinity negative \<Rightarrow> (Response 404 (ErrorBody ''User not found''), st)
      | Finite i \<Rightarrow>
         (case map_of (users st) i of
            None \<Rightarrow> (Response 404 (ErrorBody ''User not found''), st)
          | Some user \<Rightarrow>
             (case validateUserData reqBody of
                Inl e \<Rightarrow> (Response 500 (Uncaught e), st)
              | Inr (isValid, errors) \<Rightarrow>
                 if \<not> isValid
                 then (Response 400 (ValidationBody ''Validation failed'' errors), st)
                 else
                   (case trimProp reqBody (js ''name'') of
                      Inl e \<Rightarrow> (Response 500 (Uncaught e), st)
                    | Inr n \<Rightarrow>
                       (case trimProp reqBody (js ''email'') of
                          Inl e \<Rightarrow> (Response 500 (Uncaught e), st)
                        | Inr m \<Rightarrow>
                           (let st1 = st\<lparr>users :=
                                  AList.update i (user\<lparr>name := n, email := m\<rparr>) (users st)\<rparr>
                            in case map_of (users st1) i of
                                 None \<Rightarrow> (Response 200 EmptyBody, st1)
                               | Some u \<Rightarrow> (Response 200 (UserBody u), st1)))))))"

definition deleteUser :: "jsstring \<Rightarrow> state \<Rightarrow> response \<times> state" where
  "deleteUser idParam st =
     (case parseInt idParam of
        NaN \<Rightarrow> (Response 400 (ErrorBody ''Invalid user ID''), st)
      | Infinity negative \<Rightarrow> (Response 404 (ErrorBody ''User not found''), st)
      | Finite i \<Rightarrow>
         (case map_of (users st) i of
            None \<Rightarrow> (Response 404 (ErrorBody ''User not found''), st)
          | Some user \<Rightarrow>
             (Response 204 EmptyBody, st\<lparr>users := AList.delete i (users st)\<rparr>)))"

text \<open>A request is one of the six routes; \<open>now\<close> is the clock read by \<open>new Date()\<close>.\<close>

datatype request =
    GetRoot
  | GetUsers
  | GetUser jsstring
  | PostUser jsval
  | PutUser jsstring jsval
  | DeleteUser jsstring

fun handle :: "request \<Rightarrow> date \<Rightarrow> state \<Rightarrow> response \<times> state" where
  "handle GetRoot now st = getRoot st"
| "handle GetUsers now st = getUsers st"
| "handle (GetUser idParam) now st = getUser idParam st"
| "handle (PostUser reqBody) now st = postUser reqBody now st"
| "handle (PutUser idParam reqBody) now st = putUser idParam reqBody st"
| "handle (DeleteUser idParam) now st = deleteUser idParam st"

text \<open>Requests are handled one after the other, each to completion.\<close>

fun run :: "(request \<times> date) list \<Rightarrow> state \<Rightarrow> response list \<times> state" where
  "run [] st = ([], st)"
| "run ((rq, now) # rest) st =
     (let (r, st1) = handle rq now st; (rs, st2) = run rest st1 in (r # rs, st2))"

section \<open>Vocabulary of the statements\<close>

text \<open>
  The shape of an email in the words of the specification: one or more code units that
  are neither white space nor \<open>@\<close>, then \<open>@\<close>, one or more such code units, a dot, and one
  or more such code units.
\<close>

definition spec_emailShape :: "jsstring \<Rightarrow> bool" where
  "spec_emailShape s \<longleftrightarrow>
     (\<exists>a b c. s = a @ [0x40] @ b @ [0x2E] @ c \<and>
        a \<noteq> [] \<and> b \<noteq> [] \<and> c \<noteq> [] \<and>
        (\<forall>x \<in> set (a @ b @ c). \<not> isStrWhiteSpace x \<and> x \<noteq> 0x40))"

text \<open>The body \<open>{"name": n, "email": e}\<close>.\<close>

definition mkBody :: "string \<Rightarrow> string \<Rightarrow> jsval" where
  "mkBody n e = JObject [(js ''name'', JString (js n)), (js ''email'', JString (js e))]"

text \<open>
  The user and the store after \<open>POST /users\<close> with the body
  \<open>{"name": "Ann", "email": "ann@x.com"}\<close> at time 5 on the initial store.
\<close>

definition ann :: User where
  "ann = \<lparr>id' = 1, name = js ''Ann'', email = js ''ann@x.com'', createdAt = 5\<rparr>"

definition oneUser :: state where
  "oneUser = \<lparr>users = [(1, ann)], nextId = 2\<rparr>"

text \<open>
  The Numbers in the words of the floating-point format: an integer is a finite Number
  when its magnitude is a significand below \<open>2^53\<close> times a power of two up to \<open>2^971\<close>.
  The Number nearest to \<open>n\<close> is nearer to \<open>n\<close> than any other, or as near as another
  and with the even significand, which then is a multiple of twice their distance.
\<close>

definition spec_isNumber :: "int \<Rightarrow> bool" where
  "spec_isNumber v \<longleftrightarrow> (\<exists>q e. \<bar>v\<bar> = q * 2 ^ e \<and> 0 \<le> q \<and> q < 2 ^ 53 \<and> e \<le> (971::nat))"

definition spec_nearestNumber :: "int \<Rightarrow> int \<Rightarrow> bool" where
  "spec_nearestNumber n v \<longleftrightarrow>
     spec_isNumber v \<and>
     (\<forall>d. spec_isNumber d \<and> d \<noteq> v \<longrightarrow>
        \<bar>n - v\<bar> < \<bar>n - d\<bar> \<or> (\<bar>n - v\<bar> = \<bar>n - d\<bar> \<and> 2 * \<bar>d - v\<bar> dvd v))"

text \<open>
  The Number that stands for the integer \<open>n\<close>: the nearest Number, or the infinity of
  the sign of \<open>n\<close> from \<open>2^1024 - 2^970\<close> on, halfway between the largest Number and
  \<open>2^1024\<close>.
\<close>

definition spec_numberOf :: "int \<Rightarrow> number \<Rightarrow> bool" where
  "spec_numberOf n r \<longleftrightarrow>
     (case r of
        NaN \<Rightarrow> False
      | Infinity negative \<Rightarrow> 2 ^ 1024 - 2 ^ 970 \<le> \<bar>n\<bar> \<and> (negative \<longleftrightarrow> n < 0)
      | Finite v \<Rightarrow> \<bar>n\<bar> < 2 ^ 1024 - 2 ^ 970 \<and> spec_nearestNumber n v)"

text \<open>
  Integers in the words of the specification. A digit is worth its place in the row of
  digits; in a numeral the last digit counts units and each digit before it counts
  \<open>b\<close> times more; the integer of a string is read off the longest prefix of digits,
  after an optional sign, and there is none when that prefix is empty.
\<close>

fun spec_position :: "cu \<Rightarrow> jsstring \<Rightarrow> nat option" where
  "spec_position c [] = None"
| "spec_position c (x # xs) =
     (if c = x then Some 0 else map_option Suc (spec_position c xs))"

definition spec_decimalDigit :: "cu \<Rightarrow> nat option" where
  "spec_decimalDigit c = spec_position c (js ''0123456789'')"

definition spec_hexDigit :: "cu \<Rightarrow> nat option" where
  "spec_hexDigit c =
     (case spec_position c (js ''0123456789abcdef'') of
        Some d \<Rightarrow> Some d
      | None \<Rightarrow> spec_position c (js ''0123456789ABCDEF''))"

primrec spec_fromRight :: "nat \<Rightarrow> nat list \<Rightarrow> int" where
  "spec_fromRight b [] = 0"
| "spec_fromRight b (d # ds) = int d + int b * spec_fromRight b ds"

definition spec_value :: "nat \<Rightarrow> nat list \<Rightarrow> int" where
  "spec_value b ds = spec_fromRight b (rev ds)"

fun spec_sign :: "jsstring \<Rightarrow> int \<times> jsstring" where
  "spec_sign [] = (1, [])"
| "spec_sign (c # cs) =
     (if c = 0x2D then (- 1, cs) else if c = 0x2B then (1, cs) else (1, c # cs))"

fun spec_prefix :: "(cu \<Rightarrow> nat option) \<Rightarrow> jsstring \<Rightarrow> nat list" where
  "spec_prefix dg [] = []"
| "spec_prefix dg (c # cs) = (case dg c of None \<Rightarrow> [] | Some d \<Rightarrow> d # spec_prefix dg cs)"

definition spec_integer :: "(cu \<Rightarrow> nat option) \<Rightarrow> nat \<Rightarrow> int \<times> jsstring \<Rightarrow> int option" where
  "spec_integer dg b p =
     (case spec_prefix dg (snd p) of
        [] \<Rightarrow> None
      | d # ds \<Rightarrow> Some (fst p * spec_value b (d # ds)))"

text \<open>
  Parsing in base 10 in the words of the specification: the segment is trimmed at its
  start and read as a decimal integer.
\<close>

definition spec_parseBase10 :: "jsstring \<Rightarrow> int option" where
  "spec_parseBase10 s = spec_integer spec_decimalDigit 10 (spec_sign (dropWhile isStrWhiteSpace s))"

text \<open>
  A segment with a hexadecimal prefix, \<open>0x\<close> or \<open>0X\<close> after white space and sign, and the
  hexadecimal integer that follows the prefix.
\<close>

definition spec_hexPrefix :: "jsstring \<Rightarrow> bool" where
  "spec_hexPrefix s \<longleftrightarrow>
     (case snd (spec_sign (dropWhile isStrWhiteSpace s)) of
        c # x # rest \<Rightarrow> c = 0x30 \<and> (x = 0x78 \<or> x = 0x58)
      | _ \<Rightarrow> False)"

definition spec_parseBase16 :: "jsstring \<Rightarrow> int option" where
  "spec_parseBase16 s =
     (case spec_sign (dropWhile isStrWhiteSpace s) of
        (sg, t) \<Rightarrow> spec_integer spec_hexDigit 16 (sg, drop 2 t))"

text \<open>
  The result for an integer that may be missing: \<open>NaN\<close> where there is none, and
  otherwise the Number that stands for it.
\<close>

fun spec_result :: "int option \<Rightarrow> number \<Rightarrow> bool" where
  "spec_result None r = (r = NaN)"
| "spec_result (Some n) r = spec_numberOf n r"

text \<open>Names for the intermediate values of \<open>parseInt\<close>.\<close>

definition signOf :: "jsstring \<Rightarrow> int" where
  "signOf s = (let S = trimStart s in if S \<noteq> [] \<and> hd S = 0x2D then - 1 else 1)"

definition afterSign :: "jsstring \<Rightarrow> jsstring" where
  "afterSign s =
     (let S = trimStart s in if S \<noteq> [] \<and> (hd S = 0x2B \<or> hd S = 0x2D) then tl S else S)"

definition hexPrefixed :: "jsstring \<Rightarrow> bool" where
  "hexPrefixed s \<longleftrightarrow>
     (let S = afterSign s in 2 \<le> length S \<and> (take 2 S = js ''0x'' \<or> take 2 S = js ''0X''))"

text \<open>The ids returned by the successful creates of a run, in the order of the run.\<close>

fun createdId :: "response \<Rightarrow> int option" where
  "createdId (Response c (UserBody u)) = (if c = 201 then Some (id' u) else None)"
| "createdId (Response c b) = None"

fun createdIds :: "response list \<Rightarrow> int list" where
  "createdIds [] = []"
| "createdIds (r # rs) =
     (case createdId r of None \<Rightarrow> createdIds rs | Some i \<Rightarrow> i # createdIds rs)"

section \<open>Auxiliary facts\<close>

subsection \<open>The matcher and the shape of an email\<close>

lemma matchHere_Nil: "matchHere [] s \<longleftrightarrow> s = []"
  by (cases s) simp_all

lemma matchHere_One:
  "matchHere (One p # r) s \<longleftrightarrow> (\<exists>c w. s = c # w \<and> p c \<and> matchHere r w)"
  by (cases s) simp_all

lemma matchHere_OneOrMore:
  "matchHere (OneOrMore p # r) s \<longleftrightarrow>
     (\<exists>u w. s = u @ w \<and> u \<noteq> [] \<and> (\<forall>x \<in> set u. p x) \<and> matchHere r w)"
proof (induction s)
  case Nil
  show ?case by simp
next
  case (Cons c cs)
  show ?case (is "?L \<longleftrightarrow> ?R")
  proof
    assume L: ?L
    then have pc: "p c" by simp
    from L consider "matchHere (OneOrMore p # r) cs" | "matchHere r cs" by auto
    then show ?R
    proof cases
      case 1
      with Cons.IH obtain u w where "cs = u @ w" "\<forall>x \<in> set u. p x" "matchHere r w"
        by blast
      with pc have "c # cs = (c # u) @ w \<and> c # u \<noteq> [] \<and> (\<forall>x \<in> set (c # u). p x) \<and> matchHere r w"
        by simp
      then show ?thesis by blast
    next
      case 2
      with pc have "c # cs = [c] @ cs \<and> [c] \<noteq> [] \<and> (\<forall>x \<in> set [c]. p x) \<and> matchHere r cs"
        by simp
      then show ?thesis by blast
    qed
  next
    assume ?R
    then obtain u w where uw: "c # cs = u @ w" "u \<noteq> []" "\<forall>x \<in> set u. p x" "matchHere r w"
      by blast
    then obtain u' where u: "u = c # u'" by (cases u) auto
    with uw have cs: "cs = u' @ w" and pc: "p c" and pu': "\<forall>x \<in> set u'. p x" by auto
    show ?L
    proof (cases "u' = []")
      case True
      with cs uw(4) pc show ?thesis by simp
    next
      case False
      with cs pu' uw(4) have "matchHere (OneOrMore p # r) cs"
        using Cons.IH by blast
      with pc show ?thesis by simp
    qed
  qed
qed

subsection \<open>Trimming\<close>

lemma trim_Nil: "trim [] = []"
  by (simp add: trim_def trimStart_def trimEnd_def)

lemma trim_no_space:
  assumes "\<forall>x \<in> set s. \<not> isStrWhiteSpace x"
  shows "trim s = s"
proof (cases s)
  case Nil then show ?thesis by (simp add: trim_Nil)
next
  case (Cons c cs)
  with assms have "trimStart s = s" by (simp add: trimStart_def)
  moreover have "trimEnd s = s"
  proof (cases "rev s")
    case Nil then show ?thesis using Cons by simp
  next
    case (Cons d ds)
    then have "d \<in> set s" by (metis list.set_intros(1) set_rev)
    with assms have "\<not> isStrWhiteSpace d" by blast
    with Cons show ?thesis by (simp add: trimEnd_def)
  qed
  ultimately show ?thesis by (simp add: trim_def)
qed

lemma at_not_space: "\<not> isStrWhiteSpace 0x40"
  by (simp add: isStrWhiteSpace_def isWhiteSpace_def isLineTerminator_def)

lemma dot_not_space: "\<not> isStrWhiteSpace 0x2E"
  by (simp add: isStrWhiteSpace_def isWhiteSpace_def isLineTerminator_def)

lemma shape_no_space: "spec_emailShape s \<Longrightarrow> \<forall>x \<in> set s. \<not> isStrWhiteSpace x"
  unfolding spec_emailShape_def
  using at_not_space dot_not_space by auto

lemma emailPattern_shape: "regexTest emailPattern s \<longleftrightarrow> spec_emailShape s"
proof
  assume "regexTest emailPattern s"
  then obtain a w1 where 1: "s = a @ w1" "a \<noteq> []" "\<forall>x \<in> set a. notSpaceAt x"
      "matchHere [One isAt, OneOrMore notSpaceAt, One isDot, OneOrMore notSpaceAt] w1"
    unfolding regexTest_def emailPattern_def matchHere_OneOrMore [of _ "[One isAt, OneOrMore notSpaceAt, One isDot, OneOrMore notSpaceAt]"]
    by blast
  from 1(4) obtain w2 where 2: "w1 = 0x40 # w2" "matchHere [OneOrMore notSpaceAt, One isDot, OneOrMore notSpaceAt] w2"
    unfolding matchHere_One [of _ "[OneOrMore notSpaceAt, One isDot, OneOrMore notSpaceAt]"] isAt_def by blast
  from 2(2) obtain b w3 where 3: "w2 = b @ w3" "b \<noteq> []" "\<forall>x \<in> set b. notSpaceAt x"
      "matchHere [One isDot, OneOrMore notSpaceAt] w3"
    unfolding matchHere_OneOrMore [of _ "[One isDot, OneOrMore notSpaceAt]"] by blast
  from 3(4) obtain c where 4: "w3 = 0x2E # c" "matchHere [OneOrMore notSpaceAt] c"
    unfolding matchHere_One [of _ "[OneOrMore notSpaceAt]"] isDot_def by blast
  from 4(2) have 5: "c \<noteq> []" "\<forall>x \<in> set c. notSpaceAt x"
    unfolding matchHere_OneOrMore [of _ "[]"] matchHere_Nil by auto
  have "s = a @ [0x40] @ b @ [0x2E] @ c" using 1(1) 2(1) 3(1) 4(1) by simp
  moreover have "\<forall>x \<in> set (a @ b @ c). \<not> isStrWhiteSpace x \<and> x \<noteq> 0x40"
    using 1(3) 3(3) 5(2) unfolding notSpaceAt_def by auto
  ultimately show "spec_emailShape s"
    unfolding spec_emailShape_def using 1(2) 3(2) 5(1) by blast
next
  assume "spec_emailShape s"
  then obtain a b c where s: "s = a @ [0x40] @ b @ [0x2E] @ c" "a \<noteq> []" "b \<noteq> []" "c \<noteq> []"
     and cl: "\<forall>x \<in> set (a @ b @ c). \<not> isStrWhiteSpace x \<and> x \<noteq> 0x40"
    unfolding spec_emailShape_def by blast
  from cl have ca: "\<forall>x \<in> set a. notSpaceAt x" and cb: "\<forall>x \<in> set b. notSpaceAt x"
    and cc: "\<forall>x \<in> set c. notSpaceAt x"
    unfolding notSpaceAt_def by auto
  have 1: "matchHere [OneOrMore notSpaceAt] c"
    unfolding matchHere_OneOrMore [of _ "[]"] matchHere_Nil using s(4) cc by simp
  have 2: "matchHere [One isDot, OneOrMore notSpaceAt] (0x2E # c)"
    using 1 by (simp add: isDot_def)
  have 3: "matchHere [OneOrMore notSpaceAt, One isDot, OneOrMore notSpaceAt] (b @ 0x2E # c)"
    unfolding matchHere_OneOrMore [of _ "[One isDot, OneOrMore notSpaceAt]"] using 2 s(3) cb by blast
  have 4: "matchHere [One isAt, OneOrMore notSpaceAt, One isDot, OneOrMore notSpaceAt] (0x40 # b @ 0x2E # c)"
    using 3 by (simp add: isAt_def)
  have "matchHere emailPattern (a @ 0x40 # b @ 0x2E # c)"
    unfolding emailPattern_def matchHere_OneOrMore [of _ "[One isAt, OneOrMore notSpaceAt, One isDot, OneOrMore notSpaceAt]"]
    using 4 s(2) ca by blast
  then show "regexTest emailPattern s"
    unfolding regexTest_def using s(1) by simp
qed

subsection \<open>Validation\<close>

lemma blank_iff:
  "(\<not> truthy v \<or> typeof v \<noteq> ''string'' \<or> callTrim v = Inr []) \<longleftrightarrow>
     (\<forall>s. v = JString s \<longrightarrow> trim s = [])"
  by (cases v) (auto simp: trim_Nil)

lemma emailTest_iff: "emailTest v \<longleftrightarrow> (\<exists>s. v = JString s \<and> regexTest emailPattern s)"
  by (cases v) (simp_all add: emailTest_def)

lemma messages_distinct:
  "nameRequired \<noteq> emailRequired" "nameRequired \<noteq> emailInvalid" "emailRequired \<noteq> emailInvalid"
  by (simp_all add: nameRequired_def emailRequired_def emailInvalid_def)

lemma validate_Inr:
  assumes "validateUserData data = Inr (isValid, errors)"
  obtains nm em where "getProp data (js ''name'') = Inr nm" "getProp data (js ''email'') = Inr em"
    "errors =
       (if \<forall>s. nm = JString s \<longrightarrow> trim s = []
        then [nameRequired] else []) @
       (if \<forall>s. em = JString s \<longrightarrow> trim s = []
        then [emailRequired]
        else if \<not> emailTest em then [emailInvalid] else [])"
    "isValid \<longleftrightarrow> errors = []"
proof -
  from assms obtain nm where nm: "getProp data (js ''name'') = Inr nm"
    unfolding validateUserData_def by (cases "getProp data (js ''name'')") auto
  from assms nm obtain em where em: "getProp data (js ''email'') = Inr em"
    unfolding validateUserData_def by (cases "getProp data (js ''email'')") auto
  from assms nm em have "errors =
       (if \<forall>s. nm = JString s \<longrightarrow> trim s = []
        then [nameRequired] else []) @
       (if \<forall>s. em = JString s \<longrightarrow> trim s = []
        then [emailRequired]
        else if \<not> emailTest em then [emailInvalid] else [])"
    and "isValid \<longleftrightarrow> errors = []"
    unfolding validateUserData_def Let_def blank_iff by (auto split: if_splits)
  with nm em that show thesis by blast
qed

lemma validate_total:
  assumes "getProp data (js ''name'') = Inr nm"
  shows "\<exists>isValid errors. validateUserData data = Inr (isValid, errors)"
proof -
  from assms obtain em where "getProp data (js ''email'') = Inr em"
    by (cases data) auto
  with assms show ?thesis by (simp add: validateUserData_def Let_def)
qed

lemma valid_fields:
  assumes "validateUserData data = Inr (True, errors)"
  obtains n m where "getProp data (js ''name'') = Inr (JString n)"
    "getProp data (js ''email'') = Inr (JString m)"
    "trim n \<noteq> []" "trim m \<noteq> []" "regexTest emailPattern m" "errors = []"
proof -
  from assms obtain nm em where g: "getProp data (js ''name'') = Inr nm"
      "getProp data (js ''email'') = Inr em"
    and e: "errors =
       (if \<forall>s. nm = JString s \<longrightarrow> trim s = []
        then [nameRequired] else []) @
       (if \<forall>s. em = JString s \<longrightarrow> trim s = []
        then [emailRequired]
        else if \<not> emailTest em then [emailInvalid] else [])"
    and v: "True \<longleftrightarrow> errors = []"
    by (rule validate_Inr)
  from v e obtain n where n: "nm = JString n" "trim n \<noteq> []"
    by (auto split: if_splits)
  from v e obtain m where m: "em = JString m" "trim m \<noteq> []" "emailTest em"
    by (auto split: if_splits)
  from m have "regexTest emailPattern m" by (simp add: emailTest_def)
  with g n m v that show thesis by blast
qed

lemma trimProp_string: "getProp data k = Inr (JString s) \<Longrightarrow> trimProp data k = Inr (trim s)"
  by (simp add: trimProp_def)

subsection \<open>The handlers\<close>

lemma getUser_state: "snd (getUser seg st) = st"
  by (simp add: getUser_def split: option.splits number.splits)

lemma deleteUser_error:
  "deleteUser seg st = (r, st') \<Longrightarrow> status r = 400 \<or> status r = 404 \<Longrightarrow> st' = st"
  by (auto simp: deleteUser_def split: option.splits number.splits)

lemma putUser_error:
  "putUser seg b st = (r, st') \<Longrightarrow> status r = 400 \<or> status r = 404 \<Longrightarrow> st' = st"
  by (auto simp: putUser_def Let_def split: option.splits number.splits sum.splits if_splits)

lemma postUser_error:
  "postUser b now st = (r, st') \<Longrightarrow> status r = 400 \<or> status r = 404 \<Longrightarrow> st' = st"
  by (auto simp: postUser_def Let_def split: option.splits sum.splits if_splits)

lemma parse_abc: "parseInt (js ''abc'') = NaN"
  by code_simp

lemma parse_1: "parseInt (js ''1'') = Finite 1"
  by code_simp

lemma putUser_valid:
  assumes "parseInt seg = Finite k" and "map_of (users st) k = Some u"
    and "validateUserData reqBody = Inr (True, errs)"
    and "getProp reqBody (js ''name'') = Inr (JString n)"
    and "getProp reqBody (js ''email'') = Inr (JString m)"
  shows "putUser seg reqBody st =
      (Response 200 (UserBody (u\<lparr>name := trim n, email := trim m\<rparr>)),
       st\<lparr>users := AList.update k (u\<lparr>name := trim n, email := trim m\<rparr>) (users st)\<rparr>)"
  using assms by (simp add: putUser_def Let_def update_conv' trimProp_string)

lemma validate_empty_object:
  "validateUserData (JObject []) = Inr (False, [nameRequired, emailRequired])"
  by (simp add: validateUserData_def)

lemma shape_trim: "spec_emailShape s \<Longrightarrow> trim s = s \<and> s \<noteq> []"
proof -
  assume a: "spec_emailShape s"
  then have "trim s = s" by (simp add: shape_no_space trim_no_space)
  moreover from a have "s \<noteq> []" unfolding spec_emailShape_def by auto
  ultimately show ?thesis by simp
qed

lemma validate_mkBody_ok: "validateUserData (mkBody ''Ann'' ''a@b.c'') = Inr (True, [])"
  by code_simp

lemma validate_a_b: "validateUserData (mkBody ''Ann'' ''a@b'') = Inr (False, [emailInvalid])"
  by code_simp

lemma validate_noat: "validateUserData (mkBody ''Ann'' ''noatsign.com'') = Inr (False, [emailInvalid])"
  by code_simp

lemma validate_lead: "validateUserData (mkBody ''Ann'' '' a@b.c'') = Inr (False, [emailInvalid])"
  by code_simp

lemma validate_bad: "validateUserData (mkBody [] ''bad'') = Inr (False, [nameRequired, emailInvalid])"
  by code_simp

lemma getProp_mkBody:
  "getProp (mkBody n e) (js ''name'') = Inr (JString (js n))"
  "getProp (mkBody n e) (js ''email'') = Inr (JString (js e))"
  by (simp_all add: mkBody_def js_def)

subsection \<open>Evaluations\<close>

lemma trim_Ann: "trim (js ''Ann'') = js ''Ann''"
  by code_simp

lemma trim_ann_mail: "trim (js ''ann@x.com'') = js ''ann@x.com''"
  by code_simp

lemma trim_Bob: "trim (js '' Bob '') = js ''Bob''"
  by code_simp

lemma trim_bob_mail: "trim (js ''bob@x.com'') = js ''bob@x.com''"
  by code_simp

lemma validate_ann: "validateUserData (mkBody ''Ann'' ''ann@x.com'') = Inr (True, [])"
  by code_simp

lemma validate_bob: "validateUserData (mkBody '' Bob '' ''bob@x.com'') = Inr (True, [])"
  by code_simp

lemma post_ann:
  "handle (PostUser (mkBody ''Ann'' ''ann@x.com'')) 5 init = (Response 201 (UserBody ann), oneUser)"
  by (simp add: postUser_def validate_ann trimProp_string getProp_mkBody trim_Ann trim_ann_mail
      init_def incr_def ann_def oneUser_def Let_def)

lemma get_ann: "handle (GetUser (js ''1'')) t oneUser = (Response 200 (UserBody ann), oneUser)"
  by (simp add: getUser_def parse_1 oneUser_def)

subsection \<open>Rounding to a Number\<close>

lemma bitLength_bounds:
  "0 < m \<Longrightarrow> 2 ^ (bitLength m - 1) \<le> m \<and> m < 2 ^ bitLength m"
proof (induction m rule: bitLength.induct)
  case (1 n)
  show ?case
  proof (cases "n div 2 \<le> 0")
    case True
    with 1(2) have "n = 1" by linarith
    then show ?thesis by (simp add: bitLength.simps)
  next
    case False
    then have pos: "0 < n div 2" by simp
    let ?L = "bitLength (n div 2)"
    from 1(1) 1(2) pos have ih: "2 ^ (?L - 1) \<le> n div 2" "n div 2 < 2 ^ ?L" by simp_all
    have L: "bitLength n = Suc ?L" using 1(2) by (simp add: bitLength.simps)
    have Lpos: "0 < ?L" using pos by (simp add: bitLength.simps)
    then have "(2::int) ^ ?L = 2 * 2 ^ (?L - 1)" by (cases ?L) simp_all
    with ih(1) have lo: "2 ^ ?L \<le> n" by linarith
    from ih(2) have hi: "n < 2 * 2 ^ ?L" by linarith
    from lo hi L show ?thesis by simp
  qed
qed

lemma div_lower: "0 < (P::int) \<Longrightarrow> a * P \<le> m \<Longrightarrow> a \<le> m div P"
proof -
  assume P: "0 < P" and le: "a * P \<le> m"
  then have "(a * P) div P \<le> m div P" by (simp only: zdiv_mono1)
  with P show ?thesis by simp
qed

lemma div_upper: "0 < (P::int) \<Longrightarrow> m < b * P \<Longrightarrow> m div P < b"
proof (rule ccontr)
  assume P: "0 < P" and lt: "m < b * P" and "\<not> m div P < b"
  then have "b \<le> m div P" by simp
  with P have "b * P \<le> (m div P) * P" by (simp only: mult_right_mono less_imp_le)
  also have "\<dots> = m - m mod P" by (simp add: minus_mod_eq_div_mult)
  also have "\<dots> \<le> m" using P by simp
  finally show False using lt by simp
qed

lemma frame_gen:
  assumes "2 ^ Suc k \<le> m" and "e = bitLength m - Suc k"
  shows "1 \<le> e \<and> 2 ^ k \<le> m div 2 ^ e \<and> m div 2 ^ e < 2 ^ Suc k"
proof -
  from assms(1) have pos: "0 < m" by (smt (verit) zero_less_power)
  let ?L = "bitLength m"
  from bitLength_bounds [OF pos] have lo: "2 ^ (?L - 1) \<le> m" and hi: "m < 2 ^ ?L" by simp_all
  have "(2::int) ^ Suc k < 2 ^ ?L" using assms(1) hi by linarith
  then have L: "Suc k < ?L" by (simp only: power_strict_increasing_iff)
  then have e1: "1 \<le> e" by (simp add: assms(2))
  from L have Le: "?L = Suc k + e" and Le1: "?L - 1 = k + e" by (simp_all add: assms(2))
  have "(2::int) ^ k * 2 ^ e \<le> m" using lo unfolding Le1 by (simp only: power_add)
  then have a: "2 ^ k \<le> m div 2 ^ e" by (intro div_lower) simp_all
  have "m < 2 ^ Suc k * 2 ^ e" using hi unfolding Le by (simp only: power_add)
  then have b: "m div 2 ^ e < 2 ^ Suc k" by (intro div_upper) simp_all
  from e1 a b show ?thesis by simp
qed

lemma gap_gen:
  assumes "d = p * 2 ^ f" and "p < 2 ^ Suc k" and "(2::int) ^ k \<le> q" and "q * 2 ^ e < d"
  shows "(q + 1) * 2 ^ e \<le> d"
proof (cases "f < e")
  case True
  then obtain j where e: "e = f + Suc j" by (metis less_imp_Suc_add add_Suc_right)
  have "(2::int) ^ f * 2 * 1 \<le> 2 ^ f * 2 * 2 ^ j"
    by (intro mult_left_mono) simp_all
  then have "2 * (2::int) ^ f \<le> 2 ^ e" unfolding e by (simp add: power_add mult_ac)
  then have "2 ^ Suc k * (2::int) ^ f \<le> 2 ^ k * 2 ^ e"
    by (simp add: mult_left_mono)
  moreover have "d \<le> 2 ^ Suc k * 2 ^ f"
    unfolding assms(1) using assms(2) by (simp add: mult_right_mono)
  moreover have "2 ^ k * (2::int) ^ e \<le> q * 2 ^ e"
    using assms(3) by (simp add: mult_right_mono)
  ultimately have "d \<le> q * 2 ^ e" by linarith
  with assms(4) show ?thesis by simp
next
  case False
  then obtain j where f: "f = e + j" by (metis le_Suc_ex linorder_not_less)
  have d: "d = (p * 2 ^ j) * 2 ^ e" unfolding assms(1) f by (simp add: power_add)
  with assms(4) have "q < p * 2 ^ j" by simp
  then have "q + 1 \<le> p * 2 ^ j" by simp
  then have "(q + 1) * 2 ^ e \<le> (p * 2 ^ j) * 2 ^ e" by (simp only: mult_right_mono zero_le_power zero_le_numeral)
  with d show ?thesis by simp
qed

lemma nearest_gen:
  fixes m q r v d p :: int and e f k :: nat
  assumes q: "2 ^ k \<le> q" and e: "1 \<le> e"
    and m: "m = q * 2 ^ e + r" "0 \<le> r" "r < 2 ^ e"
    and v: "v = (if 2 ^ (e - 1) < r \<or> (r = 2 ^ (e - 1) \<and> odd q) then q + 1 else q) * 2 ^ e"
    and d: "d = p * 2 ^ f" "p < 2 ^ Suc k" "d \<noteq> v"
  shows "\<bar>m - v\<bar> < \<bar>m - d\<bar> \<or> (\<bar>m - v\<bar> = \<bar>m - d\<bar> \<and> 2 * \<bar>d - v\<bar> dvd v)"
proof -
  define P :: int where "P = 2 ^ e"
  define h :: int where "h = 2 ^ (e - 1)"
  define qP where "qP = q * P"
  from e have P2: "P = 2 * h" unfolding P_def h_def by (cases e) simp_all
  have q1: "(q + 1) * P = qP + P" unfolding qP_def by (simp add: algebra_simps)
  have gap: "d \<le> qP \<or> qP + P \<le> d"
    using gap_gen [OF d(1) d(2) q, of e] unfolding q1 [unfolded P_def qP_def] qP_def P_def
    by linarith
  have mq: "m = qP + r" and r: "0 \<le> r" "r < P"
    using m unfolding qP_def P_def by simp_all
  show ?thesis
  proof (cases "h < r \<or> (r = h \<and> odd q)")
    case True
    then have vv: "v = qP + P" using v q1 unfolding P_def h_def qP_def by simp
    from gap show ?thesis
    proof
      assume dl: "d \<le> qP"
      show ?thesis
      proof (cases "h < r")
        case True
        with dl mq vv P2 r have "\<bar>m - v\<bar> < \<bar>m - d\<bar>" by linarith
        then show ?thesis ..
      next
        case False
        with \<open>h < r \<or> (r = h \<and> odd q)\<close> have rh: "r = h" and oq: "odd q" by simp_all
        show ?thesis
        proof (cases "d = qP")
          case True
          from oq have "2 dvd q + 1" by simp
          then have "2 * P dvd (q + 1) * P" by (rule mult_dvd_mono) simp
          moreover have "\<bar>d - v\<bar> = P" using True vv r by linarith
          ultimately have "2 * \<bar>d - v\<bar> dvd v" using vv q1 by simp
          moreover have "\<bar>m - v\<bar> = \<bar>m - d\<bar>" using True mq vv P2 rh r by linarith
          ultimately show ?thesis by simp
        next
          case False
          with dl mq vv P2 rh r have "\<bar>m - v\<bar> < \<bar>m - d\<bar>" by linarith
          then show ?thesis ..
        qed
      qed
    next
      assume "qP + P \<le> d"
      with d(3) vv mq r have "\<bar>m - v\<bar> < \<bar>m - d\<bar>" by linarith
      then show ?thesis ..
    qed
  next
    case False
    then have vv: "v = qP" using v unfolding P_def h_def qP_def by simp
    from False have rh: "r \<le> h" and ev: "r = h \<longrightarrow> even q" by auto
    from gap show ?thesis
    proof
      assume "d \<le> qP"
      with d(3) vv mq r have "\<bar>m - v\<bar> < \<bar>m - d\<bar>" by linarith
      then show ?thesis ..
    next
      assume du: "qP + P \<le> d"
      show ?thesis
      proof (cases "r = h \<and> d = qP + P")
        case True
        with ev have "2 dvd q" by simp
        then have "2 * P dvd q * P" by (rule mult_dvd_mono) simp
        moreover have "\<bar>d - v\<bar> = P" using True vv r by linarith
        ultimately have "2 * \<bar>d - v\<bar> dvd v" using vv qP_def by simp
        moreover have "\<bar>m - v\<bar> = \<bar>m - d\<bar>" using True mq vv P2 r by linarith
        ultimately show ?thesis by simp
      next
        case False
        with du rh mq vv P2 r have "\<bar>m - v\<bar> < \<bar>m - d\<bar>" by linarith
        then show ?thesis ..
      qed
    qed
  qed
qed

lemma isNumber_exact: "0 \<le> m \<Longrightarrow> m < 2 ^ 53 \<Longrightarrow> spec_isNumber m"
  unfolding spec_isNumber_def by (rule exI [of _ m], rule exI [of _ 0]) simp

lemma round_exact: "m < 2 ^ 53 \<Longrightarrow> roundMagnitude m = Some m"
  by (simp add: roundMagnitude_def)

lemma round_cases:
  assumes "2 ^ 53 \<le> m"
  obtains e q r v where "1 \<le> e" "2 ^ 52 \<le> q" "q < 2 ^ 53" "m = q * 2 ^ e + r" "0 \<le> r" "r < 2 ^ e"
    "v = (if 2 ^ (e - 1) < r \<or> (r = 2 ^ (e - 1) \<and> odd q) then q + 1 else q) * 2 ^ e"
    "roundMagnitude m = (if 2 ^ 1024 \<le> v then None else Some v)"
proof -
  define e where "e = bitLength m - Suc 52"
  define q where "q = m div 2 ^ e"
  define r where "r = m mod 2 ^ e"
  define v where "v = (if 2 ^ (e - 1) < r \<or> (r = 2 ^ (e - 1) \<and> odd q) then q + 1 else q) * 2 ^ e"
  from assms have "2 ^ Suc 52 \<le> m" by simp
  from frame_gen [OF this e_def] have f: "1 \<le> e" "2 ^ 52 \<le> q" "q < 2 ^ 53"
    unfolding q_def by simp_all
  have m: "m = q * 2 ^ e + r" unfolding q_def r_def by (simp only: div_mult_mod_eq)
  have r: "0 \<le> r" "r < 2 ^ e" unfolding r_def by simp_all
  have "roundMagnitude m = (if 2 ^ 1024 \<le> v then None else Some v)"
    using assms unfolding roundMagnitude_def Let_def v_def q_def r_def e_def by simp
  with f m r v_def that show thesis by blast
qed

lemma threshold_above: "(2::int) ^ 53 < 2 ^ 1024 - 2 ^ 970"
  by simp

lemma round_Some_large:
  assumes "2 ^ 53 \<le> m" and "roundMagnitude m = Some v"
  shows "spec_isNumber v" and "0 < v" and "\<bar>m - v\<bar> < m" and "m < 2 ^ 1024 - 2 ^ 970"
    and "\<forall>d. spec_isNumber d \<and> 0 \<le> d \<and> d \<noteq> v \<longrightarrow>
           \<bar>m - v\<bar> < \<bar>m - d\<bar> \<or> (\<bar>m - v\<bar> = \<bar>m - d\<bar> \<and> 2 * \<bar>d - v\<bar> dvd v)"
proof -
  from assms(1) obtain e q r v' where f: "1 \<le> e" "2 ^ 52 \<le> q" "q < 2 ^ 53"
    and m: "m = q * 2 ^ e + r" "0 \<le> r" "r < 2 ^ e"
    and v': "v' = (if 2 ^ (e - 1) < r \<or> (r = 2 ^ (e - 1) \<and> odd q) then q + 1 else q) * 2 ^ e"
    and rm: "roundMagnitude m = (if 2 ^ 1024 \<le> v' then None else Some v')"
    by (rule round_cases)
  from rm assms(2) have vv: "v' = v" and small: "v < 2 ^ 1024"
    by (simp_all split: if_splits)
  define P :: int where "P = 2 ^ e"
  define h :: int where "h = 2 ^ (e - 1)"
  define q' where "q' = (if h < r \<or> (r = h \<and> odd q) then q + 1 else q)"
  have v: "v = q' * P" using v' vv unfolding q'_def P_def h_def by simp
  from f(1) have P2: "P = 2 * h" unfolding P_def h_def by (cases e) simp_all
  have hpos: "0 < h" unfolding h_def by simp
  have q'b: "q \<le> q'" "q' \<le> q + 1" unfolding q'_def by simp_all
  have mP: "m = q * P + r" "r < P" using m unfolding P_def by simp_all
  have lo: "2 ^ 52 * P \<le> q * P" using f(2) unfolding P_def by (simp add: mult_right_mono)
  have qq: "q * P \<le> q' * P" using q'b(1) unfolding P_def by (simp add: mult_right_mono)
  have "(2::int) ^ (52 + e) \<le> v" using lo qq v unfolding P_def by (simp add: power_add)
  with small have "(2::int) ^ (52 + e) < 2 ^ 1024" by linarith
  then have e971: "e \<le> 971" by (simp only: power_strict_increasing_iff)
  show num: "spec_isNumber v"
  proof (cases "q' < 2 ^ 53")
    case True
    have "\<bar>v\<bar> = q' * 2 ^ e \<and> 0 \<le> q' \<and> q' < 2 ^ 53 \<and> e \<le> 971"
      using v True e971 q'b f(2) unfolding P_def by simp
    then show ?thesis unfolding spec_isNumber_def by blast
  next
    case False
    with q'b f(3) have q53: "q' = 2 ^ 53" by linarith
    then have v53: "v = 2 ^ (53 + e)" using v unfolding P_def by (simp add: power_add)
    with small have "(2::int) ^ (53 + e) < 2 ^ 1024" by simp
    then have "Suc e \<le> 971" by (simp only: power_strict_increasing_iff)
    moreover have "\<bar>v\<bar> = 2 ^ 52 * 2 ^ Suc e" unfolding v53 by (simp add: power_add)
    ultimately have "\<bar>v\<bar> = 2 ^ 52 * 2 ^ Suc e \<and> (0::int) \<le> 2 ^ 52 \<and> (2::int) ^ 52 < 2 ^ 53 \<and> Suc e \<le> 971"
      by simp
    then show ?thesis unfolding spec_isNumber_def by blast
  qed
  have vlo: "0 < v" using lo qq v unfolding P_def
    by (smt (verit) zero_less_power mult_pos_pos zero_less_numeral)
  then show "0 < v" .
  have dist: "\<bar>m - v\<bar> \<le> h"
  proof (cases "h < r \<or> (r = h \<and> odd q)")
    case True
    then have "q' = q + 1" unfolding q'_def by auto
    with v have "v = q * P + P" by (simp add: algebra_simps)
    with True mP P2 show ?thesis by linarith
  next
    case False
    then have "q' = q" unfolding q'_def by auto
    with v have "v = q * P" by simp
    with False mP m(2) show ?thesis by linarith
  qed
  have "P \<le> 2 ^ 52 * P" unfolding P_def by simp
  with lo mP m(2) P2 hpos have "h < m" by linarith
  with dist show "\<bar>m - v\<bar> < m" by linarith
  show "m < 2 ^ 1024 - 2 ^ 970"
  proof (cases "e = 971")
    case False
    with e971 have "53 + e \<le> 1023" by simp
    then have "(2::int) ^ (53 + e) \<le> 2 ^ 1023" by (simp only: power_increasing_iff)
    moreover have "m < 2 ^ (53 + e)"
    proof -
      from f(3) have "q + 1 \<le> 2 ^ 53" by simp
      then have "(q + 1) * P \<le> 2 ^ 53 * P"
        unfolding P_def by (simp only: mult_right_mono zero_le_power zero_le_numeral)
      then have "q * P + P \<le> 2 ^ 53 * P" by (simp add: algebra_simps)
      with mP have "m < 2 ^ 53 * P" by linarith
      then show ?thesis unfolding P_def by (simp only: power_add)
    qed
    ultimately show ?thesis by simp
  next
    case True
    have P971: "P = 2 ^ 971" and h970: "h = 2 ^ 970" unfolding P_def h_def True by simp_all
    from small v have "q' * P < 2 ^ 53 * P" unfolding P971 by simp
    then have q'53: "q' < 2 ^ 53" unfolding P_def by simp
    show ?thesis
    proof (cases "h < r \<or> (r = h \<and> odd q)")
      case True
      then have "q' = q + 1" unfolding q'_def by auto
      with q'53 have "q \<le> 2 ^ 53 - 2" by simp
      then have "q * P \<le> (2 ^ 53 - 2) * P" unfolding P_def by (simp only: mult_right_mono zero_le_power zero_le_numeral)
      with mP show ?thesis unfolding P971 by simp
    next
      case False
      then have rh: "r \<le> h" and ev: "r = h \<longrightarrow> even q" by auto
      show ?thesis
      proof (cases "q = 2 ^ 53 - 1")
        case True
        then have "odd q" by simp
        with ev rh have "r < h" by (cases "r = h") simp_all
        with mP True show ?thesis unfolding P971 h970 by simp
      next
        case False
        with f(3) have "q \<le> 2 ^ 53 - 2" by simp
        then have "q * P \<le> (2 ^ 53 - 2) * P" unfolding P_def by (simp only: mult_right_mono zero_le_power zero_le_numeral)
        with mP rh show ?thesis unfolding P971 h970 by simp
      qed
    qed
  qed
  show "\<forall>d. spec_isNumber d \<and> 0 \<le> d \<and> d \<noteq> v \<longrightarrow>
           \<bar>m - v\<bar> < \<bar>m - d\<bar> \<or> (\<bar>m - v\<bar> = \<bar>m - d\<bar> \<and> 2 * \<bar>d - v\<bar> dvd v)"
  proof (intro allI impI)
    fix d
    assume a: "spec_isNumber d \<and> 0 \<le> d \<and> d \<noteq> v"
    then obtain p g where d: "d = p * 2 ^ g" and p: "p < 2 ^ Suc 52"
      unfolding spec_isNumber_def by auto
    from f(2) have q52: "(2::int) ^ 52 \<le> q" .
    from a have dv: "d \<noteq> v" by simp
    show "\<bar>m - v\<bar> < \<bar>m - d\<bar> \<or> (\<bar>m - v\<bar> = \<bar>m - d\<bar> \<and> 2 * \<bar>d - v\<bar> dvd v)"
      using nearest_gen [OF q52 f(1) m v' [unfolded vv] d p dv] .
  qed
qed

lemma round_None:
  assumes "roundMagnitude m = None"
  shows "2 ^ 1024 - 2 ^ 970 \<le> m"
proof -
  from assms have m53: "2 ^ 53 \<le> m" by (cases "m < 2 ^ 53") (simp_all add: round_exact)
  then obtain e q r v where f: "1 \<le> e" "2 ^ 52 \<le> q" "q < 2 ^ 53"
    and m: "m = q * 2 ^ e + r" "0 \<le> r" "r < 2 ^ e"
    and v: "v = (if 2 ^ (e - 1) < r \<or> (r = 2 ^ (e - 1) \<and> odd q) then q + 1 else q) * 2 ^ e"
    and rm: "roundMagnitude m = (if 2 ^ 1024 \<le> v then None else Some v)"
    by (rule round_cases)
  from rm assms have big: "2 ^ 1024 \<le> v" by (simp split: if_splits)
  define P :: int where "P = 2 ^ e"
  define h :: int where "h = 2 ^ (e - 1)"
  from f(1) have P2: "P = 2 * h" unfolding P_def h_def by (cases e) simp_all
  have mP: "m = q * P + r" "r < P" using m unfolding P_def by simp_all
  show ?thesis
  proof (cases "e \<le> 971")
    case True
    then have "e - 1 \<le> 970" by simp
    then have h970: "h \<le> 2 ^ 970" unfolding h_def by (simp only: power_increasing_iff)
    have "v - m \<le> h"
    proof (cases "h < r \<or> (r = h \<and> odd q)")
      case True
      then have "v = (q + 1) * P" using v unfolding P_def h_def by auto
      then have "v = q * P + P" by (simp add: algebra_simps)
      with True mP P2 show ?thesis by linarith
    next
      case False
      then have "v = q * P" using v unfolding P_def h_def by auto
      with mP m(2) P2 False show ?thesis by linarith
    qed
    with h970 big show ?thesis by linarith
  next
    case False
    then have "1024 \<le> 52 + e" by simp
    then have "(2::int) ^ 1024 \<le> 2 ^ (52 + e)" by (simp only: power_increasing_iff)
    also have "\<dots> = 2 ^ 52 * P" unfolding P_def by (simp only: power_add)
    also have "\<dots> \<le> q * P" using f(2) unfolding P_def
      by (simp only: mult_right_mono zero_le_power zero_le_numeral)
    finally have "2 ^ 1024 \<le> m" using mP m(2) by linarith
    then show ?thesis by simp
  qed
qed

lemma isNumber_minus: "spec_isNumber (- d) = spec_isNumber d"
  by (simp add: spec_isNumber_def)

lemma nearest_minus: "spec_nearestNumber (- n) (- v) = spec_nearestNumber n v"
proof -
  have a: "spec_nearestNumber (- n) (- v)" if h: "spec_nearestNumber n v" for n v
    unfolding spec_nearestNumber_def
  proof (intro conjI allI impI)
    from h show "spec_isNumber (- v)" by (simp add: spec_nearestNumber_def isNumber_minus)
  next
    fix d
    assume "spec_isNumber d \<and> d \<noteq> - v"
    then have "spec_isNumber (- d) \<and> - d \<noteq> v" by (auto simp: isNumber_minus)
    with h have "\<bar>n - v\<bar> < \<bar>n - (- d)\<bar> \<or> (\<bar>n - v\<bar> = \<bar>n - (- d)\<bar> \<and> 2 * \<bar>(- d) - v\<bar> dvd v)"
      unfolding spec_nearestNumber_def by blast
    moreover have "\<bar>n - v\<bar> = \<bar>- n - - v\<bar>" "\<bar>n - (- d)\<bar> = \<bar>- n - d\<bar>" "\<bar>(- d) - v\<bar> = \<bar>d - - v\<bar>"
      by linarith+
    ultimately show "\<bar>- n - - v\<bar> < \<bar>- n - d\<bar> \<or> (\<bar>- n - - v\<bar> = \<bar>- n - d\<bar> \<and> 2 * \<bar>d - - v\<bar> dvd - v)"
      by (simp only: dvd_minus_iff)
  qed
  show ?thesis using a [of n v] a [of "- n" "- v"] by auto
qed

lemma nearest_nonneg:
  assumes "0 \<le> m" and "roundMagnitude m = Some v"
  shows "m < 2 ^ 1024 - 2 ^ 970 \<and> spec_nearestNumber m v"
proof (cases "m < 2 ^ 53")
  case True
  with assms have v: "v = m" by (simp add: round_exact)
  from True assms(1) have "spec_isNumber m" by (simp add: isNumber_exact)
  then have "spec_nearestNumber m m" unfolding spec_nearestNumber_def by auto
  moreover from True threshold_above have "m < 2 ^ 1024 - 2 ^ 970" by linarith
  ultimately show ?thesis using v by simp
next
  case False
  then have m53: "2 ^ 53 \<le> m" by simp
  note L = round_Some_large [OF m53 assms(2)]
  have "\<bar>m - v\<bar> < \<bar>m - d\<bar> \<or> (\<bar>m - v\<bar> = \<bar>m - d\<bar> \<and> 2 * \<bar>d - v\<bar> dvd v)"
    if d: "spec_isNumber d \<and> d \<noteq> v" for d
  proof (cases "0 \<le> d")
    case True
    with d L(5) show ?thesis by blast
  next
    case False
    with L(3) assms(1) have "\<bar>m - v\<bar> < \<bar>m - d\<bar>" by linarith
    then show ?thesis ..
  qed
  with L(1) have "spec_nearestNumber m v" unfolding spec_nearestNumber_def by blast
  with L(4) show ?thesis by simp
qed

lemma toNumber_spec: "spec_numberOf n (toNumber n)"
proof (cases "roundMagnitude \<bar>n\<bar>")
  case None
  then have "2 ^ 1024 - 2 ^ 970 \<le> \<bar>n\<bar>" by (rule round_None)
  with None show ?thesis by (simp add: spec_numberOf_def toNumber_def)
next
  case (Some v)
  have "0 \<le> \<bar>n\<bar>" by simp
  from nearest_nonneg [OF this Some] have r: "\<bar>n\<bar> < 2 ^ 1024 - 2 ^ 970"
    and nr: "spec_nearestNumber \<bar>n\<bar> v" by simp_all
  show ?thesis
  proof (cases "n < 0")
    case True
    with nr have "spec_nearestNumber (- n) v" by simp
    then have "spec_nearestNumber n (- v)" using nearest_minus [of n "- v"] by simp
    with True Some r show ?thesis by (simp add: spec_numberOf_def toNumber_def)
  next
    case False
    with nr have "spec_nearestNumber n v" by simp
    with False Some r show ?thesis by (simp add: spec_numberOf_def toNumber_def)
  qed
qed

lemma round_2_53: "roundMagnitude (2 ^ 53) = Some (2 ^ 53)"
  by code_simp

lemma toNumber_exact: "\<bar>n\<bar> \<le> 2 ^ 53 \<Longrightarrow> toNumber n = Finite n"
proof -
  assume a: "\<bar>n\<bar> \<le> 2 ^ 53"
  have "roundMagnitude \<bar>n\<bar> = Some \<bar>n\<bar>"
  proof (cases "\<bar>n\<bar> = 2 ^ 53")
    case True
    then show ?thesis using round_2_53 by simp
  next
    case False
    with a have "\<bar>n\<bar> < 2 ^ 53" by linarith
    then show ?thesis by (rule round_exact)
  qed
  then show ?thesis by (simp add: toNumber_def)
qed

subsection \<open>Parsing\<close>

lemma parseInt_alt:
  "parseInt s =
     (let R = (if hexPrefixed s then 16 else 10);
          Z = takeWhile (isRadixDigit R) (if hexPrefixed s then drop 2 (afterSign s) else afterSign s)
      in if Z = [] then NaN else toNumber (signOf s * mathInt R Z))"
  unfolding parseInt_def afterSign_def hexPrefixed_def signOf_def Let_def by (rule refl)

lemma sign_agree: "spec_sign (dropWhile isStrWhiteSpace s) = (signOf s, afterSign s)"
proof -
  define t where "t = dropWhile isStrWhiteSpace s"
  show ?thesis
    unfolding signOf_def afterSign_def trimStart_def Let_def t_def [symmetric]
    by (cases t) auto
qed

lemma hex_agree: "spec_hexPrefix s \<longleftrightarrow> hexPrefixed s"
proof -
  have "spec_hexPrefix s \<longleftrightarrow>
      (case afterSign s of c # x # rest \<Rightarrow> c = 0x30 \<and> (x = 0x78 \<or> x = 0x58) | _ \<Rightarrow> False)"
    by (simp add: spec_hexPrefix_def sign_agree)
  also have "\<dots> \<longleftrightarrow> hexPrefixed s"
    by (cases "afterSign s"; cases "tl (afterSign s)")
      (auto simp: hexPrefixed_def Let_def js_def)
  finally show ?thesis .
qed

lemma decimal_row:
  "spec_decimalDigit c =
     (if unat c = 48 then Some 0 else if unat c = 49 then Some 1 else if unat c = 50 then Some 2
      else if unat c = 51 then Some 3 else if unat c = 52 then Some 4 else if unat c = 53 then Some 5
      else if unat c = 54 then Some 6 else if unat c = 55 then Some 7 else if unat c = 56 then Some 8
      else if unat c = 57 then Some 9 else None)"
  by (simp add: spec_decimalDigit_def js_def word_unat_eq_iff)

lemma decimal_agree:
  "spec_decimalDigit c = (if isRadixDigit 10 c then digitValue c else None)"
proof -
  consider "unat c < 48" | "unat c = 48" | "unat c = 49" | "unat c = 50" | "unat c = 51"
    | "unat c = 52" | "unat c = 53" | "unat c = 54" | "unat c = 55" | "unat c = 56"
    | "unat c = 57" | "57 < unat c"
    by atomize_elim arith
  then show ?thesis
    by cases (auto simp: decimal_row isRadixDigit_def digitValue_def Let_def)
qed

lemma hex_row:
  "spec_hexDigit c =
     (if unat c = 48 then Some 0 else if unat c = 49 then Some 1 else if unat c = 50 then Some 2
      else if unat c = 51 then Some 3 else if unat c = 52 then Some 4 else if unat c = 53 then Some 5
      else if unat c = 54 then Some 6 else if unat c = 55 then Some 7 else if unat c = 56 then Some 8
      else if unat c = 57 then Some 9
      else if unat c = 97 \<or> unat c = 65 then Some 10 else if unat c = 98 \<or> unat c = 66 then Some 11
      else if unat c = 99 \<or> unat c = 67 then Some 12 else if unat c = 100 \<or> unat c = 68 then Some 13
      else if unat c = 101 \<or> unat c = 69 then Some 14 else if unat c = 102 \<or> unat c = 70 then Some 15
      else None)"
  by (simp add: spec_hexDigit_def js_def word_unat_eq_iff)

lemma hexDigit_agree:
  "spec_hexDigit c = (if isRadixDigit 16 c then digitValue c else None)"
proof -
  consider "unat c < 48" | "unat c = 48" | "unat c = 49" | "unat c = 50" | "unat c = 51"
    | "unat c = 52" | "unat c = 53" | "unat c = 54" | "unat c = 55" | "unat c = 56"
    | "unat c = 57" | "57 < unat c \<and> unat c < 65"
    | "unat c = 65" | "unat c = 66" | "unat c = 67" | "unat c = 68" | "unat c = 69" | "unat c = 70"
    | "70 < unat c \<and> unat c < 97"
    | "unat c = 97" | "unat c = 98" | "unat c = 99" | "unat c = 100" | "unat c = 101" | "unat c = 102"
    | "102 < unat c"
    by atomize_elim arith
  then show ?thesis
    by cases (auto simp: hex_row isRadixDigit_def digitValue_def Let_def)
qed

lemma prefix_agree:
  assumes "\<And>c. dg c = (if isRadixDigit R c then digitValue c else None)"
  shows "spec_prefix dg t =
     map (\<lambda>c. case digitValue c of None \<Rightarrow> 0 | Some d \<Rightarrow> d) (takeWhile (isRadixDigit R) t)"
proof (induction t)
  case Nil
  show ?case by simp
next
  case (Cons c cs)
  show ?case
  proof (cases "isRadixDigit R c")
    case True
    then obtain d where "digitValue c = Some d"
      by (cases "digitValue c") (simp_all add: isRadixDigit_def)
    with True Cons assms show ?thesis by simp
  next
    case False
    with assms show ?thesis by simp
  qed
qed

lemma value_agree:
  "mathInt R Z = spec_value R (map (\<lambda>c. case digitValue c of None \<Rightarrow> 0 | Some d \<Rightarrow> d) Z)"
proof (induction Z rule: rev_induct)
  case Nil
  show ?case by (simp add: mathInt_def spec_value_def)
next
  case (snoc c Z)
  have "mathInt R (Z @ [c]) =
      mathInt R Z * int R + (case digitValue c of None \<Rightarrow> 0 | Some d \<Rightarrow> int d)"
    by (simp add: mathInt_def)
  with snoc show ?case
    by (cases "digitValue c") (simp_all add: spec_value_def)
qed

lemma integer_agree:
  assumes "\<And>c. dg c = (if isRadixDigit R c then digitValue c else None)"
  shows "spec_integer dg R (sg, t) =
     (if takeWhile (isRadixDigit R) t = [] then None
      else Some (sg * mathInt R (takeWhile (isRadixDigit R) t)))"
proof -
  let ?Z = "takeWhile (isRadixDigit R) t"
  let ?dv = "\<lambda>c. case digitValue c of None \<Rightarrow> 0 | Some d \<Rightarrow> d"
  have p: "spec_prefix dg t = map ?dv ?Z" using assms by (rule prefix_agree)
  show ?thesis
  proof (cases "?Z = []")
    case True
    with p show ?thesis by (simp add: spec_integer_def)
  next
    case False
    then obtain d ds where "map ?dv ?Z = d # ds" by (cases "map ?dv ?Z") simp_all
    with p False show ?thesis by (simp add: spec_integer_def value_agree)
  qed
qed

lemma parseInt_base10:
  assumes "\<not> spec_hexPrefix s"
  shows "parseInt s = (case spec_parseBase10 s of None \<Rightarrow> NaN | Some n \<Rightarrow> toNumber n)"
  using assms
  by (simp add: parseInt_alt hex_agree spec_parseBase10_def sign_agree
      integer_agree [of spec_decimalDigit 10, OF decimal_agree] Let_def)

lemma parseInt_base16:
  assumes "spec_hexPrefix s"
  shows "parseInt s = (case spec_parseBase16 s of None \<Rightarrow> NaN | Some n \<Rightarrow> toNumber n)"
  using assms
  by (simp add: parseInt_alt hex_agree spec_parseBase16_def sign_agree
      integer_agree [of spec_hexDigit 16, OF hexDigit_agree] Let_def)

lemma result_toNumber:
  "spec_result x (case x of None \<Rightarrow> NaN | Some n \<Rightarrow> toNumber n)"
  by (cases x) (simp_all add: toNumber_spec)

lemma hexPrefix_decimal:
  assumes "spec_hexPrefix s"
  shows "spec_parseBase10 s \<noteq> None"
proof -
  obtain sg t where st: "spec_sign (dropWhile isStrWhiteSpace s) = (sg, t)"
    by (cases "spec_sign (dropWhile isStrWhiteSpace s)")
  with assms obtain x rest where "t = 0x30 # x # rest"
    by (cases t; cases "tl t") (auto simp: spec_hexPrefix_def)
  then have "spec_prefix spec_decimalDigit t \<noteq> []"
    by (simp add: spec_decimalDigit_def js_def)
  then show ?thesis
    by (cases "spec_prefix spec_decimalDigit t") (simp_all add: spec_parseBase10_def st spec_integer_def)
qed

lemma parse_fail_400:
  assumes "parseInt s = NaN"
  shows "handle (GetUser s) now st = (Response 400 (ErrorBody ''Invalid user ID''), st)"
    and "handle (PutUser s b) now st = (Response 400 (ErrorBody ''Invalid user ID''), st)"
    and "handle (DeleteUser s) now st = (Response 400 (ErrorBody ''Invalid user ID''), st)"
  using assms by (simp_all add: getUser_def putUser_def deleteUser_def)

lemma parse_12abc: "spec_parseBase10 (js ''12abc'') = Some 12"
  by code_simp

lemma not_hex_12abc: "\<not> spec_hexPrefix (js ''12abc'')"
  by code_simp

lemma spec_parse_abc: "spec_parseBase10 (js ''abc'') = None"
  by code_simp

lemma parse_0x1: "parseInt (js ''0x1'') = Finite 1"
  by code_simp

lemma spec_parse_0x1: "spec_parseBase10 (js ''0x1'') = Some 0"
  by code_simp

lemma parse_rounded: "parseInt (js ''9007199254740995'') = Finite 9007199254740996"
  by code_simp

subsection \<open>The counter\<close>

lemma postUser_valid:
  assumes "validateUserData b = Inr (True, errors)"
  shows "\<exists>u st'. postUser b now st = (Response 201 (UserBody u), st') \<and>
           id' u = nextId st \<and> nextId st' = incr (nextId st)"
proof -
  from assms obtain n m where "getProp b (js ''name'') = Inr (JString n)"
      "getProp b (js ''email'') = Inr (JString m)"
    by (rule valid_fields)
  with assms show ?thesis
    by (simp add: postUser_def Let_def trimProp_string)
qed

lemma postUser_counter:
  assumes "postUser b now st = (r, st')"
  shows "(createdId r = None \<and> nextId st' = nextId st) \<or>
         (createdId r = Some (nextId st) \<and> nextId st' = incr (nextId st))"
proof (cases "validateUserData b")
  case (Inl e)
  with assms show ?thesis by (auto simp: postUser_def)
next
  case (Inr p)
  obtain isValid errors where p: "p = (isValid, errors)" by (cases p)
  show ?thesis
  proof (cases isValid)
    case True
    with Inr p have "validateUserData b = Inr (True, errors)" by simp
    from postUser_valid [OF this, of now st] assms show ?thesis by auto
  next
    case False
    with Inr p assms show ?thesis by (auto simp: postUser_def)
  qed
qed

lemma putUser_counter:
  "putUser seg b st = (r, st') \<Longrightarrow> createdId r = None \<and> nextId st' = nextId st"
  by (auto simp: putUser_def Let_def split: option.splits number.splits sum.splits if_splits)

lemma deleteUser_counter:
  "deleteUser seg st = (r, st') \<Longrightarrow> createdId r = None \<and> nextId st' = nextId st"
  by (auto simp: deleteUser_def split: option.splits number.splits)

lemma getUser_counter:
  "getUser seg st = (r, st') \<Longrightarrow> createdId r = None \<and> nextId st' = nextId st"
  by (auto simp: getUser_def split: option.splits number.splits)

lemma handle_counter:
  assumes "handle rq now st = (r, st')"
  shows "(createdId r = None \<and> nextId st' = nextId st) \<or>
         (createdId r = Some (nextId st) \<and> nextId st' = incr (nextId st))"
proof (cases rq)
  case GetRoot
  with assms show ?thesis by (auto simp: getRoot_def)
next
  case GetUsers
  with assms show ?thesis by (auto simp: getUsers_def)
next
  case (GetUser seg)
  with assms show ?thesis using getUser_counter by simp
next
  case (PostUser b)
  with assms show ?thesis using postUser_counter by simp
next
  case (PutUser seg b)
  with assms show ?thesis using putUser_counter by simp
next
  case (DeleteUser seg)
  with assms show ?thesis using deleteUser_counter by simp
qed

lemma run_ids:
  assumes "run reqs st = (rs, st')" and "nextId st \<le> 2 ^ 53"
  shows "createdIds rs =
           map (\<lambda>i. min (nextId st + int i) (2 ^ 53)) [0..<length (createdIds rs)] \<and>
         nextId st' = min (nextId st + int (length (createdIds rs))) (2 ^ 53)"
  using assms
proof (induction reqs arbitrary: st rs st')
  case Nil
  then show ?case by simp
next
  case (Cons a reqs)
  obtain rq now where a: "a = (rq, now)" by (cases a)
  obtain r st1 where h: "handle rq now st = (r, st1)" by (cases "handle rq now st")
  obtain rs' st2 where t: "run reqs st1 = (rs', st2)" by (cases "run reqs st1")
  from Cons.prems(1) a h t have rs: "rs = r # rs'" and st': "st' = st2" by simp_all
  from handle_counter [OF h] show ?case
  proof
    assume n: "createdId r = None \<and> nextId st1 = nextId st"
    with Cons.prems(2) have "nextId st1 \<le> 2 ^ 53" by simp
    from Cons.IH [OF t this] n rs st' show ?thesis by simp
  next
    assume s: "createdId r = Some (nextId st) \<and> nextId st1 = incr (nextId st)"
    with Cons.prems(2) have c1: "nextId st1 = min (nextId st + 1) (2 ^ 53)"
      by (simp add: incr_def)
    then have "nextId st1 \<le> 2 ^ 53" by simp
    from Cons.IH [OF t this]
    have ih: "createdIds rs' =
           map (\<lambda>i. min (nextId st1 + int i) (2 ^ 53)) [0..<length (createdIds rs')]"
      and ih2: "nextId st2 = min (nextId st1 + int (length (createdIds rs'))) (2 ^ 53)"
      by simp_all
    have e: "min (nextId st1 + int i) (2 ^ 53) = min (nextId st + int (Suc i)) (2 ^ 53)" for i
      unfolding c1 by simp
    from s rs have "createdIds rs = nextId st # createdIds rs'" by simp
    also have "createdIds rs' =
        map (\<lambda>i. min (nextId st + int (Suc i)) (2 ^ 53)) [0..<length (createdIds rs')]"
      using ih unfolding e .
    finally have l: "createdIds rs =
        nextId st # map (\<lambda>i. min (nextId st + int (Suc i)) (2 ^ 53)) [0..<length (createdIds rs')]" .
    then have len: "length (createdIds rs) = Suc (length (createdIds rs'))" by simp
    have "map (\<lambda>i. min (nextId st + int i) (2 ^ 53)) [0..<Suc (length (createdIds rs'))] =
        nextId st # map (\<lambda>i. min (nextId st + int (Suc i)) (2 ^ 53)) [0..<length (createdIds rs')]"
      using Cons.prems(2) unfolding map_upt_Suc by simp
    with l len have 1: "createdIds rs =
        map (\<lambda>i. min (nextId st + int i) (2 ^ 53)) [0..<length (createdIds rs)]"
      by simp
    have 2: "nextId st' = min (nextId st + int (length (createdIds rs))) (2 ^ 53)"
      unfolding st' ih2 len c1 by simp
    from 1 2 show ?thesis by simp
  qed
qed

lemma map_int_upt: "map (\<lambda>i. c + int i) [0..<n] = [c..c + int n - 1]"
proof (induction n)
  case 0
  show ?case by simp
next
  case (Suc n)
  have "[c..c + int (Suc n) - 1] = [c..c + int n - 1] @ [c + int n]"
    using upto_rec2 [of c "c + int n"] by simp
  with Suc show ?case by simp
qed

lemma counter_range:
  assumes "run reqs init = (rs, st')"
  shows "1 \<le> nextId st' \<and> nextId st' \<le> 2 ^ 53"
proof -
  have "nextId init \<le> 2 ^ 53" by (simp add: init_def)
  with assms have "nextId st' = min (nextId init + int (length (createdIds rs))) (2 ^ 53)"
    using run_ids by blast
  then show ?thesis by (simp add: init_def)
qed

lemma run_posts:
  assumes "validateUserData b = Inr (True, errors)"
  shows "length (createdIds (fst (run (replicate n (PostUser b, t)) st))) = n"
proof (induction n arbitrary: st)
  case 0
  show ?case by simp
next
  case (Suc n)
  from postUser_valid [OF assms, of t st] obtain u st1
    where p: "postUser b t st = (Response 201 (UserBody u), st1)" by blast
  obtain rs st2 where r: "run (replicate n (PostUser b, t)) st1 = (rs, st2)"
    by (cases "run (replicate n (PostUser b, t)) st1")
  from Suc [of st1] r have "length (createdIds rs) = n" by simp
  with p r show ?case by simp
qed

lemma ids_beyond_limit:
  assumes "run reqs init = (rs, st')" and "2 ^ 53 < length (createdIds rs)"
  shows "createdIds rs ! (2 ^ 53 - 1) = 2 ^ 53 \<and> createdIds rs ! (2 ^ 53) = 2 ^ 53"
proof -
  let ?n = "length (createdIds rs)"
  have "nextId init \<le> 2 ^ 53" by (simp add: init_def)
  with assms(1) have "createdIds rs = map (\<lambda>i. min (nextId init + int i) (2 ^ 53)) [0..<?n]"
    using run_ids by blast
  then have ids: "createdIds rs = map (\<lambda>i. min (1 + int i) (2 ^ 53)) [0..<?n]"
    by (simp add: init_def)
  have a: "createdIds rs ! (2 ^ 53 - 1) = 2 ^ 53"
  proof -
    have "(2 ^ 53 - 1 :: nat) < ?n" using assms(2) by simp
    then have "map (\<lambda>i. min (1 + int i) (2 ^ 53)) [0..<?n] ! (2 ^ 53 - 1) =
        min (1 + int (2 ^ 53 - 1)) (2 ^ 53)"
      by (simp only: nth_map length_upt nth_upt minus_nat.diff_0 add_0)
    also have "\<dots> = 2 ^ 53" by simp
    finally show ?thesis using ids by simp
  qed
  have b: "createdIds rs ! (2 ^ 53) = 2 ^ 53"
  proof -
    have "map (\<lambda>i. min (1 + int i) (2 ^ 53)) [0..<?n] ! (2 ^ 53) =
        min (1 + int (2 ^ 53)) (2 ^ 53)"
      using assms(2) by (simp only: nth_map length_upt nth_upt minus_nat.diff_0 add_0)
    also have "\<dots> = 2 ^ 53" by simp
    finally show ?thesis using ids by simp
  qed
  from a b show ?thesis by simp
qed

lemma posts_beyond_limit:
  assumes "validateUserData b = Inr (True, errors)" and "2 ^ 53 < n"
  shows "length (createdIds (fst (run (replicate n (PostUser b, t)) init))) = n \<and>
         createdIds (fst (run (replicate n (PostUser b, t)) init)) ! (2 ^ 53 - 1) = 2 ^ 53 \<and>
         createdIds (fst (run (replicate n (PostUser b, t)) init)) ! (2 ^ 53) = 2 ^ 53"
proof -
  let ?run = "run (replicate n (PostUser b, t)) init"
  have len: "length (createdIds (fst ?run)) = n" using assms(1) by (rule run_posts)
  have r: "?run = (fst ?run, snd ?run)" by simp
  from assms(2) len have "2 ^ 53 < length (createdIds (fst ?run))" by simp
  from ids_beyond_limit [OF r this] len show ?thesis by simp
qed

lemma run_example:
  "fst (run [(PostUser (mkBody ''Ann'' ''ann@x.com''), 5), (DeleteUser (js ''1''), 6),
             (PostUser (mkBody '' Bob '' ''bob@x.com''), 7)] init) =
     [Response 201 (UserBody ann), Response 204 EmptyBody,
      Response 201 (UserBody \<lparr>id' = 2, name = js ''Bob'', email = js ''bob@x.com'', createdAt = 7\<rparr>)]"
  by code_simp

section \<open>The claims\<close>

text \<open>
  Claim C1, as amended. Starting from the initial store, in every sequence of requests
  with at most \<open>2^53\<close> successful creates, the ids returned by the \<open>N\<close> creates are
  \<open>1, 2, \<dots>, N\<close> in this order: strictly increasing and distinct, so that no id is
  returned by a later create again, whatever is deleted in between.
\<close>

theorem ids_increasing:
  assumes "run reqs init = (rs, st')" and "length (createdIds rs) \<le> 2 ^ 53"
  shows "createdIds rs = [1..int (length (createdIds rs))] \<and>
         sorted_wrt (<) (createdIds rs) \<and> distinct (createdIds rs)"
proof -
  have "nextId init \<le> 2 ^ 53" by (simp add: init_def)
  with assms(1) have "createdIds rs =
      map (\<lambda>i. min (nextId init + int i) (2 ^ 53)) [0..<length (createdIds rs)]"
    using run_ids by blast
  also have "\<dots> = map (\<lambda>i. 1 + int i) [0..<length (createdIds rs)]"
    using assms(2) by (intro map_cong refl) (simp add: init_def)
  also have "\<dots> = [1..int (length (createdIds rs))]"
    by (simp add: map_int_upt)
  finally have e: "createdIds rs = [1..int (length (createdIds rs))]" .
  have "sorted_wrt (<) [1..int (length (createdIds rs))]"
    and "distinct [1..int (length (createdIds rs))]"
    by simp_all
  with e show ?thesis by simp
qed

text \<open>
  Create, delete the created user, create again: the ids are 1 and 2.
\<close>

theorem ids_increasing_witness:
  "createdIds (fst (run [(PostUser (mkBody ''Ann'' ''ann@x.com''), 5), (DeleteUser (js ''1''), 6),
             (PostUser (mkBody '' Bob '' ''bob@x.com''), 7)] init)) = [1, 2]"
proof -
  let ?reqs = "[(PostUser (mkBody ''Ann'' ''ann@x.com''), 5), (DeleteUser (js ''1''), 6),
             (PostUser (mkBody '' Bob '' ''bob@x.com''), 7)]"
  have l: "length (createdIds (fst (run ?reqs init))) = 2"
    unfolding run_example by (simp add: ann_def)
  have r: "run ?reqs init = (fst (run ?reqs init), snd (run ?reqs init))" by simp
  have "length (createdIds (fst (run ?reqs init))) \<le> 2 ^ 53" unfolding l by simp
  from ids_increasing [OF r this] have "createdIds (fst (run ?reqs init)) = [1..2]"
    unfolding l by simp
  also have "[1..2] = [1, 2::int]" by (simp add: upto_rec1)
  finally show ?thesis .
qed

text \<open>
  Claim C1 as stated (for every sequence of operations) fails once the counter has
  reached \<open>2^53\<close>, where \<open>nextId++\<close> no longer changes it: of \<open>2^53 + 1\<close> successive creates,
  the last two both return the id \<open>2^53\<close>. By \<open>ids_beyond_limit\<close> the same happens in every
  sequence of requests with more than \<open>2^53\<close> successful creates.
\<close>

theorem ids_increasing_counterexample:
  "length (createdIds (fst (run (replicate (2 ^ 53 + 1)
       (PostUser (mkBody ''Ann'' ''ann@x.com''), 0)) init))) = 2 ^ 53 + 1 \<and>
   createdIds (fst (run (replicate (2 ^ 53 + 1)
       (PostUser (mkBody ''Ann'' ''ann@x.com''), 0)) init)) ! (2 ^ 53 - 1) = 2 ^ 53 \<and>
   createdIds (fst (run (replicate (2 ^ 53 + 1)
       (PostUser (mkBody ''Ann'' ''ann@x.com''), 0)) init)) ! (2 ^ 53) = 2 ^ 53"
  by (rule posts_beyond_limit [OF validate_ann]) simp

text \<open>
  Claim C2. For a stored user \<open>u\<close> with key \<open>k\<close> and a \<open>PUT\<close> whose path segment parses to
  \<open>k\<close> and whose body passes validation, the body's name and email are strings, the
  response is 200 with the user \<open>u\<close> in which name and email are replaced by the trimmed
  strings of the body and nothing else is changed (\<open>id\<close> and \<open>createdAt\<close> are those of
  \<open>u\<close>), and that user is stored under \<open>k\<close>; the other keys and the counter are untouched.
\<close>

theorem put_preserves_identity:
  assumes "parseInt seg = Finite k" and "map_of (users st) k = Some u"
    and "validateUserData reqBody = Inr (True, errs)"
  shows "\<exists>n m u' st'.
           getProp reqBody (js ''name'') = Inr (JString n) \<and>
           getProp reqBody (js ''email'') = Inr (JString m) \<and>
           handle (PutUser seg reqBody) now st = (Response 200 (UserBody u'), st') \<and>
           u' = u\<lparr>name := trim n, email := trim m\<rparr> \<and>
           id' u' = id' u \<and> createdAt u' = createdAt u \<and>
           map_of (users st') = (map_of (users st))(k \<mapsto> u') \<and>
           nextId st' = nextId st"
proof -
  from assms(3) obtain n m where g: "getProp reqBody (js ''name'') = Inr (JString n)"
      "getProp reqBody (js ''email'') = Inr (JString m)"
    by (rule valid_fields)
  with assms have "handle (PutUser seg reqBody) now st =
      (Response 200 (UserBody (u\<lparr>name := trim n, email := trim m\<rparr>)),
       st\<lparr>users := AList.update k (u\<lparr>name := trim n, email := trim m\<rparr>) (users st)\<rparr>)"
    by (simp add: putUser_valid)
  with g show ?thesis by (simp add: update_conv')
qed

text \<open>
  Renaming the user of \<open>oneUser\<close>: the name arrives trimmed, \<open>id\<close> and \<open>createdAt\<close> stay.
\<close>

theorem put_preserves_identity_witness:
  "fst (handle (PutUser (js ''1'') (mkBody '' Bob '' ''bob@x.com'')) 9 oneUser) =
     Response 200 (UserBody \<lparr>id' = 1, name = js ''Bob'', email = js ''bob@x.com'', createdAt = 5\<rparr>)"
proof -
  have u: "map_of (users oneUser) 1 = Some ann" by (simp add: oneUser_def)
  from put_preserves_identity [OF parse_1 u validate_bob, of 9]
  show ?thesis
    by (auto simp: getProp_mkBody trim_Bob trim_bob_mail ann_def)
qed

text \<open>
  Claim C3, as amended. For a \<open>PUT /users/:id\<close> whose segment parses to \<open>k\<close> and whose body
  fails validation: if a user is stored under \<open>k\<close>, the response is 400 with the list of
  validation errors; if no user is stored under \<open>k\<close>, the response is 404, for this body
  and for any other. The store is unchanged in both cases.
\<close>

theorem put_invalid_body:
  assumes "parseInt seg = Finite k" and "validateUserData reqBody = Inr (False, errs)"
  shows "(map_of (users st) k \<noteq> None \<longrightarrow>
            handle (PutUser seg reqBody) now st =
              (Response 400 (ValidationBody ''Validation failed'' errs), st)) \<and>
         (map_of (users st) k = None \<longrightarrow>
            (\<forall>anyBody. handle (PutUser seg anyBody) now st =
              (Response 404 (ErrorBody ''User not found''), st)))"
  using assms by (auto simp: putUser_def)

text \<open>
  The empty body on an existing user gives 400, and a valid body on a missing user 404.
\<close>

theorem put_invalid_body_witness:
  "handle (PutUser (js ''1'') (JObject [])) 0 oneUser =
     (Response 400 (ValidationBody ''Validation failed'' [nameRequired, emailRequired]), oneUser) \<and>
   handle (PutUser (js ''1'') (mkBody ''Ann'' ''ann@x.com'')) 0 init =
     (Response 404 (ErrorBody ''User not found''), init)"
  using put_invalid_body [OF parse_1 validate_empty_object, of oneUser 0]
    put_invalid_body [OF parse_1 validate_empty_object, of init 0]
  by (simp add: oneUser_def init_def)

text \<open>
  Claim C3 as stated (400 for an invalid body whether or not the user exists) fails: the
  handler looks the user up before it validates the body. On the initial store,
  \<open>PUT /users/1\<close> with the body \<open>{}\<close> has a segment that parses and a body that fails
  validation, and is answered with 404.
\<close>

theorem put_invalid_body_counterexample:
  "parseInt (js ''1'') = Finite 1 \<and>
   validateUserData (JObject []) = Inr (False, [nameRequired, emailRequired]) \<and>
   handle (PutUser (js ''1'') (JObject [])) 0 init =
     (Response 404 (ErrorBody ''User not found''), init)"
  by (simp add: parse_1 validate_empty_object putUser_def init_def)

text \<open>
  Claim C4. A request that is answered with status 400 or 404 leaves the store as it
  was: the mapping \<open>users\<close> and the counter \<open>nextId\<close> after the request are those before
  it. This holds for \<open>POST /users\<close>, \<open>PUT /users/:id\<close> and \<open>DELETE /users/:id\<close>, and for
  the reading routes as well.
\<close>

theorem error_leaves_store:
  assumes "handle rq now st = (r, st')" and "status r = 400 \<or> status r = 404"
  shows "st' = st"
proof (cases rq)
  case GetRoot
  with assms show ?thesis by (simp add: getRoot_def)
next
  case GetUsers
  with assms show ?thesis by (simp add: getUsers_def)
next
  case (GetUser seg)
  with assms(1) show ?thesis using getUser_state [of seg st] by simp
next
  case (PostUser b)
  with assms show ?thesis using postUser_error by simp
next
  case (PutUser seg b)
  with assms show ?thesis using putUser_error by simp
next
  case (DeleteUser seg)
  with assms show ?thesis using deleteUser_error by simp
qed

text \<open>
  \<open>DELETE /users/abc\<close> on the initial store is answered with 400 and leaves it unchanged.
\<close>

theorem error_leaves_store_witness:
  "handle (DeleteUser (js ''abc'')) 0 init = (Response 400 (ErrorBody ''Invalid user ID''), init)"
proof -
  have h: "handle (DeleteUser (js ''abc'')) 0 init =
      (Response 400 (ErrorBody ''Invalid user ID''), snd (handle (DeleteUser (js ''abc'')) 0 init))"
    by (simp add: deleteUser_def parse_abc)
  have "snd (handle (DeleteUser (js ''abc'')) 0 init) = init"
    using error_leaves_store [OF h] by simp
  with h show ?thesis by simp
qed

text \<open>
  Claim C5. The name and the email are checked independently and all failures are
  returned together: the name error is reported exactly when the name is not a string
  that is non-empty after trimming, whatever the email is; the first email error exactly
  when the email is not such a string; the second exactly when the email is such a string
  that does not match the pattern. The two email errors never occur together, and
  \<open>isValid\<close> holds exactly when there is no error. \<open>POST /users\<close> with the body
  \<open>{"name":"","email":"bad"}\<close> is answered with 400 and exactly the name error and the
  email-format error.
\<close>

theorem validation_accumulates:
  assumes "validateUserData data = Inr (isValid, errors)"
    and "getProp data (js ''name'') = Inr nm" and "getProp data (js ''email'') = Inr em"
  shows "(nameRequired \<in> set errors \<longleftrightarrow> (\<forall>s. nm = JString s \<longrightarrow> trim s = [])) \<and>
         (emailRequired \<in> set errors \<longleftrightarrow> (\<forall>s. em = JString s \<longrightarrow> trim s = [])) \<and>
         (emailInvalid \<in> set errors \<longleftrightarrow>
            (\<exists>s. em = JString s \<and> trim s \<noteq> [] \<and> \<not> regexTest emailPattern s)) \<and>
         \<not> (emailRequired \<in> set errors \<and> emailInvalid \<in> set errors) \<and>
         (isValid \<longleftrightarrow> errors = []) \<and>
         postUser (mkBody '''' ''bad'') now st =
           (Response 400 (ValidationBody ''Validation failed'' [nameRequired, emailInvalid]), st)"
proof -
  from assms(1) obtain nm' em' where g: "getProp data (js ''name'') = Inr nm'"
      "getProp data (js ''email'') = Inr em'"
    and e: "errors =
       (if \<forall>s. nm' = JString s \<longrightarrow> trim s = [] then [nameRequired] else []) @
       (if \<forall>s. em' = JString s \<longrightarrow> trim s = [] then [emailRequired]
        else if \<not> emailTest em' then [emailInvalid] else [])"
    and v: "isValid \<longleftrightarrow> errors = []"
    by (rule validate_Inr)
  from g assms(2,3) have eq: "nm' = nm" "em' = em" by simp_all
  have 1: "nameRequired \<in> set errors \<longleftrightarrow> (\<forall>s. nm = JString s \<longrightarrow> trim s = [])"
    unfolding e eq using messages_distinct by auto
  have 2: "emailRequired \<in> set errors \<longleftrightarrow> (\<forall>s. em = JString s \<longrightarrow> trim s = [])"
    unfolding e eq using messages_distinct by auto
  have 3: "emailInvalid \<in> set errors \<longleftrightarrow>
      (\<exists>s. em = JString s \<and> trim s \<noteq> [] \<and> \<not> regexTest emailPattern s)"
    unfolding e eq emailTest_iff using messages_distinct by auto
  have 4: "\<not> (emailRequired \<in> set errors \<and> emailInvalid \<in> set errors)"
    unfolding 2 3 by blast
  have 5: "postUser (mkBody '''' ''bad'') now st =
      (Response 400 (ValidationBody ''Validation failed'' [nameRequired, emailInvalid]), st)"
    by (simp add: postUser_def validate_bad)
  from 1 2 3 4 5 v show ?thesis by blast
qed

text \<open>
  The two errors of the body \<open>{"name":"","email":"bad"}\<close>, read back through the
  characterisation: the name is blank and the email does not match.
\<close>

theorem validation_accumulates_witness:
  "nameRequired \<in> set [nameRequired, emailInvalid] \<and>
   emailInvalid \<in> set [nameRequired, emailInvalid] \<and>
   emailRequired \<notin> set [nameRequired, emailInvalid] \<and>
   trim (js '''') = [] \<and> \<not> regexTest emailPattern (js ''bad'')"
  using validation_accumulates [OF validate_bad getProp_mkBody] messages_distinct
  by auto

text \<open>
  Claim C6. For a body whose email is the string \<open>s\<close>, validation reports neither of the
  two email errors exactly when \<open>s\<close> has the shape of the specification: one or more code
  units that are neither white space nor \<open>@\<close>, then \<open>@\<close>, one or more such code units, a
  dot, and one or more such code units. The email \<open>a@b.c\<close> is accepted; \<open>a@b\<close> and
  \<open>noatsign.com\<close> are rejected with the message of \<open>emailInvalid\<close>.
\<close>

theorem email_check_exact:
  assumes "validateUserData data = Inr (isValid, errors)"
    and "getProp data (js ''email'') = Inr (JString s)"
  shows "(emailRequired \<notin> set errors \<and> emailInvalid \<notin> set errors \<longleftrightarrow> spec_emailShape s) \<and>
         validateUserData (mkBody ''Ann'' ''a@b.c'') = Inr (True, []) \<and>
         validateUserData (mkBody ''Ann'' ''a@b'') = Inr (False, [emailInvalid]) \<and>
         validateUserData (mkBody ''Ann'' ''noatsign.com'') = Inr (False, [emailInvalid])"
proof -
  from assms(1) obtain nm em where g: "getProp data (js ''email'') = Inr em"
    and e: "errors =
       (if \<forall>s. nm = JString s \<longrightarrow> trim s = [] then [nameRequired] else []) @
       (if \<forall>s. em = JString s \<longrightarrow> trim s = [] then [emailRequired]
        else if \<not> emailTest em then [emailInvalid] else [])"
    by (rule validate_Inr)
  from g assms(2) have em: "em = JString s" by simp
  have "emailRequired \<notin> set errors \<and> emailInvalid \<notin> set errors \<longleftrightarrow>
      trim s \<noteq> [] \<and> regexTest emailPattern s"
    unfolding e em using messages_distinct by (auto simp: emailTest_def)
  also have "\<dots> \<longleftrightarrow> spec_emailShape s"
    using shape_trim [of s] by (auto simp: emailPattern_shape)
  finally show ?thesis
    using validate_mkBody_ok validate_a_b validate_noat by simp
qed

text \<open>
  The accepted email \<open>a@b.c\<close> has the shape of the specification.
\<close>

theorem email_check_exact_witness: "spec_emailShape (js ''a@b.c'')"
  using email_check_exact [OF validate_mkBody_ok getProp_mkBody(2)] by simp

text \<open>
  Claim C7. For a stored user with key \<open>k\<close>, a \<open>DELETE\<close> whose path segment parses to \<open>k\<close>
  is answered with 204 and an empty body and removes \<open>k\<close> (and nothing else) from the
  store; after it, \<open>GET\<close> and \<open>DELETE\<close> on the same segment are both answered with 404.
\<close>

theorem delete_terminal:
  assumes "parseInt seg = Finite k" and "map_of (users st) k = Some u"
  shows "\<exists>st'. handle (DeleteUser seg) t1 st = (Response 204 EmptyBody, st') \<and>
           map_of (users st') = (map_of (users st))(k := None) \<and>
           nextId st' = nextId st \<and>
           handle (GetUser seg) t2 st' = (Response 404 (ErrorBody ''User not found''), st') \<and>
           handle (DeleteUser seg) t3 st' = (Response 404 (ErrorBody ''User not found''), st')"
  using assms by (simp add: deleteUser_def getUser_def delete_conv')

text \<open>
  Deleting the one user of \<open>oneUser\<close>, then reading and deleting it again.
\<close>

theorem delete_terminal_witness:
  "handle (DeleteUser (js ''1'')) 6 oneUser = (Response 204 EmptyBody, oneUser\<lparr>users := []\<rparr>) \<and>
   handle (GetUser (js ''1'')) 7 (oneUser\<lparr>users := []\<rparr>) =
     (Response 404 (ErrorBody ''User not found''), oneUser\<lparr>users := []\<rparr>) \<and>
   handle (DeleteUser (js ''1'')) 8 (oneUser\<lparr>users := []\<rparr>) =
     (Response 404 (ErrorBody ''User not found''), oneUser\<lparr>users := []\<rparr>)"
proof -
  have u: "map_of (users oneUser) 1 = Some ann" by (simp add: oneUser_def)
  have h: "handle (DeleteUser (js ''1'')) 6 oneUser = (Response 204 EmptyBody, oneUser\<lparr>users := []\<rparr>)"
    by (simp add: deleteUser_def parse_1 oneUser_def)
  from delete_terminal [OF parse_1 u, of 6 7 8] h show ?thesis by auto
qed

text \<open>
  Claim C8, as amended. The path segment of \<open>GET\<close>, \<open>PUT\<close> and \<open>DELETE /users/:id\<close> is
  parsed without a radix. A segment without a hexadecimal prefix is parsed as the base-10
  integer of the specification; a segment with the prefix \<open>0x\<close> or \<open>0X\<close> after white
  space and sign is parsed as the hexadecimal integer that follows the prefix. In both
  cases the result is \<open>NaN\<close> when there is no such integer and otherwise the Number
  that stands for the integer: the integer itself up to \<open>2^53\<close> in magnitude, beyond
  that the nearest Number, a tie going to the even significand, or an infinity. A segment
  that has no base-10 integer at all fails to parse, and every segment that fails to
  parse is answered with 400 and the message \<open>Invalid user ID\<close> by all three routes, the
  store unchanged; \<open>GET /users/abc\<close> is such a request. The segment
  \<open>9007199254740995\<close> is parsed to \<open>9007199254740996\<close>.
\<close>

theorem segment_parsing:
  "(\<not> spec_hexPrefix s \<longrightarrow> spec_result (spec_parseBase10 s) (parseInt s)) \<and>
   (spec_hexPrefix s \<longrightarrow> spec_result (spec_parseBase16 s) (parseInt s)) \<and>
   (\<forall>n. \<not> spec_hexPrefix s \<and> spec_parseBase10 s = Some n \<and> \<bar>n\<bar> \<le> 2 ^ 53 \<longrightarrow>
      parseInt s = Finite n) \<and>
   (\<forall>n. spec_hexPrefix s \<and> spec_parseBase16 s = Some n \<and> \<bar>n\<bar> \<le> 2 ^ 53 \<longrightarrow>
      parseInt s = Finite n) \<and>
   (spec_parseBase10 s = None \<longrightarrow> parseInt s = NaN) \<and>
   (parseInt s = NaN \<longrightarrow>
      handle (GetUser s) now st = (Response 400 (ErrorBody ''Invalid user ID''), st) \<and>
      handle (PutUser s b) now st = (Response 400 (ErrorBody ''Invalid user ID''), st) \<and>
      handle (DeleteUser s) now st = (Response 400 (ErrorBody ''Invalid user ID''), st)) \<and>
   handle (GetUser (js ''abc'')) now st = (Response 400 (ErrorBody ''Invalid user ID''), st) \<and>
   parseInt (js ''9007199254740995'') = Finite 9007199254740996"
proof -
  have 1: "\<not> spec_hexPrefix s \<longrightarrow> spec_result (spec_parseBase10 s) (parseInt s)"
    by (simp add: parseInt_base10 result_toNumber)
  have 2: "spec_hexPrefix s \<longrightarrow> spec_result (spec_parseBase16 s) (parseInt s)"
    by (simp add: parseInt_base16 result_toNumber)
  have 3: "\<forall>n. \<not> spec_hexPrefix s \<and> spec_parseBase10 s = Some n \<and> \<bar>n\<bar> \<le> 2 ^ 53 \<longrightarrow>
      parseInt s = Finite n"
    by (simp add: parseInt_base10 toNumber_exact)
  have 4: "\<forall>n. spec_hexPrefix s \<and> spec_parseBase16 s = Some n \<and> \<bar>n\<bar> \<le> 2 ^ 53 \<longrightarrow>
      parseInt s = Finite n"
    by (simp add: parseInt_base16 toNumber_exact)
  have 5: "spec_parseBase10 s = None \<longrightarrow> parseInt s = NaN"
  proof
    assume n: "spec_parseBase10 s = None"
    then have "\<not> spec_hexPrefix s" using hexPrefix_decimal by blast
    with n show "parseInt s = NaN" by (simp add: parseInt_base10)
  qed
  have 6: "parseInt s = NaN \<longrightarrow>
      handle (GetUser s) now st = (Response 400 (ErrorBody ''Invalid user ID''), st) \<and>
      handle (PutUser s b) now st = (Response 400 (ErrorBody ''Invalid user ID''), st) \<and>
      handle (DeleteUser s) now st = (Response 400 (ErrorBody ''Invalid user ID''), st)"
    using parse_fail_400 by blast
  have 7: "handle (GetUser (js ''abc'')) now st = (Response 400 (ErrorBody ''Invalid user ID''), st)"
    using parse_abc by (rule parse_fail_400)
  from 1 2 3 4 5 6 7 parse_rounded show ?thesis by blast
qed

text \<open>
  The segment \<open>12abc\<close> is read in base 10 as 12, and \<open>abc\<close> fails to parse.
\<close>

theorem segment_parsing_witness:
  "parseInt (js ''12abc'') = Finite 12 \<and> parseInt (js ''abc'') = NaN \<and>
   handle (DeleteUser (js ''abc'')) 0 init = (Response 400 (ErrorBody ''Invalid user ID''), init)"
  using segment_parsing [of "js ''12abc''"] segment_parsing [of "js ''abc''" 0 init]
    parse_12abc not_hex_12abc spec_parse_abc
  by simp

text \<open>
  Claim C8 as stated (every segment is parsed in base 10) fails on a segment with the
  prefix \<open>0x\<close>: \<open>0x1\<close> is parsed as 1, where base 10 reads the prefix \<open>0\<close>, so that after
  one \<open>POST\<close> the request \<open>GET /users/0x1\<close> returns the user with id 1.
\<close>

theorem segment_parsing_counterexample:
  "handle (PostUser (mkBody ''Ann'' ''ann@x.com'')) 5 init = (Response 201 (UserBody ann), oneUser) \<and>
   parseInt (js ''0x1'') = Finite 1 \<and>
   spec_parseBase10 (js ''0x1'') = Some 0 \<and>
   handle (GetUser (js ''0x1'')) 6 oneUser = (Response 200 (UserBody ann), oneUser)"
proof -
  have "handle (GetUser (js ''0x1'')) 6 oneUser = (Response 200 (UserBody ann), oneUser)"
    by (simp add: getUser_def parse_0x1 oneUser_def)
  with post_ann parse_0x1 spec_parse_0x1 show ?thesis by blast
qed

text \<open>
  Claim C9. \<open>GET /users/:id\<close> does not change the store or the counter, and repeating it
  with no write in between gives the same status and the same body.
\<close>

theorem get_idempotent:
  assumes "handle (GetUser seg) t1 st = (r, st')"
  shows "st' = st \<and> handle (GetUser seg) t2 st' = (r, st')"
  using assms getUser_state [of seg st] by auto

text \<open>
  With the one user of \<open>oneUser\<close>, two successive \<open>GET /users/1\<close> both return that user.
\<close>

theorem get_idempotent_witness:
  "handle (GetUser (js ''1'')) 6 oneUser = (Response 200 (UserBody ann), oneUser) \<and>
   handle (GetUser (js ''1'')) 7 oneUser = (Response 200 (UserBody ann), oneUser)"
  using get_idempotent [OF get_ann [of 6], of 7] get_ann [of 6] by simp

text \<open>
  Claim C10. The pattern is tested against the email as it was sent. Hence an email for
  which validation reports no email error is a string without any white space and is its
  own trim; \<open>" a@b.c"\<close>, which would match only after trimming, is rejected with the
  message of \<open>emailInvalid\<close>; and the email that \<open>POST /users\<close> and \<open>PUT /users/:id\<close>
  store for a valid body is the email of the body, so the trimming of the handlers
  changes nothing.
\<close>

theorem accepted_email_is_trimmed:
  "(\<forall>data isValid errors.
      validateUserData data = Inr (isValid, errors) \<and>
      emailRequired \<notin> set errors \<and> emailInvalid \<notin> set errors \<longrightarrow>
      (\<exists>s. getProp data (js ''email'') = Inr (JString s) \<and>
           (\<forall>c \<in> set s. \<not> isStrWhiteSpace c) \<and> trim s = s)) \<and>
   validateUserData (mkBody ''Ann'' '' a@b.c'') = Inr (False, [emailInvalid]) \<and>
   (\<forall>data errors now st.
      validateUserData data = Inr (True, errors) \<longrightarrow>
      (\<exists>s u st'. getProp data (js ''email'') = Inr (JString s) \<and>
           postUser data now st = (Response 201 (UserBody u), st') \<and> email u = s)) \<and>
   (\<forall>data errors seg k old (st::state).
      validateUserData data = Inr (True, errors) \<and>
      parseInt seg = Finite k \<and> map_of (users st) k = Some old \<longrightarrow>
      (\<exists>s u st'. getProp data (js ''email'') = Inr (JString s) \<and>
           putUser seg data st = (Response 200 (UserBody u), st') \<and> email u = s))"
proof (intro conjI allI impI)
  fix data isValid errors
  assume a: "validateUserData data = Inr (isValid, errors) \<and>
      emailRequired \<notin> set errors \<and> emailInvalid \<notin> set errors"
  then have v: "validateUserData data = Inr (isValid, errors)" by simp
  from v obtain nm em where g: "getProp data (js ''email'') = Inr em"
    and e: "errors =
       (if \<forall>s. nm = JString s \<longrightarrow> trim s = [] then [nameRequired] else []) @
       (if \<forall>s. em = JString s \<longrightarrow> trim s = [] then [emailRequired]
        else if \<not> emailTest em then [emailInvalid] else [])"
    by (rule validate_Inr)
  from a e have "emailTest em" by (auto split: if_splits)
  then obtain s where s: "em = JString s" "regexTest emailPattern s"
    by (auto simp: emailTest_iff)
  then have "spec_emailShape s" by (simp add: emailPattern_shape)
  then have "(\<forall>c \<in> set s. \<not> isStrWhiteSpace c) \<and> trim s = s"
    using shape_no_space shape_trim by blast
  with g s show "\<exists>s. getProp data (js ''email'') = Inr (JString s) \<and>
           (\<forall>c \<in> set s. \<not> isStrWhiteSpace c) \<and> trim s = s"
    by blast
next
  show "validateUserData (mkBody ''Ann'' '' a@b.c'') = Inr (False, [emailInvalid])"
    by (rule validate_lead)
next
  fix data errors now st
  assume a: "validateUserData data = Inr (True, errors)"
  then obtain n m where g: "getProp data (js ''name'') = Inr (JString n)"
      "getProp data (js ''email'') = Inr (JString m)" and r: "regexTest emailPattern m"
    by (rule valid_fields)
  from r have "trim m = m" by (simp add: emailPattern_shape shape_trim)
  with a g have "postUser data now st =
      (Response 201 (UserBody \<lparr>id' = nextId st, name = trim n, email = m, createdAt = now\<rparr>),
       st\<lparr>nextId := incr (nextId st),
          users := AList.update (nextId st)
            \<lparr>id' = nextId st, name = trim n, email = m, createdAt = now\<rparr> (users st)\<rparr>)"
    by (simp add: postUser_def Let_def trimProp_string)
  with g show "\<exists>s u st'. getProp data (js ''email'') = Inr (JString s) \<and>
           postUser data now st = (Response 201 (UserBody u), st') \<and> email u = s"
    by simp
next
  fix data errors seg k old and st :: state
  assume a: "validateUserData data = Inr (True, errors) \<and>
      parseInt seg = Finite k \<and> map_of (users st) k = Some old"
  then have v: "validateUserData data = Inr (True, errors)" by simp
  from v obtain n m where g: "getProp data (js ''name'') = Inr (JString n)"
      "getProp data (js ''email'') = Inr (JString m)" and r: "regexTest emailPattern m"
    by (rule valid_fields)
  from r have "trim m = m" by (simp add: emailPattern_shape shape_trim)
  with a g have "putUser seg data st =
      (Response 200 (UserBody (old\<lparr>name := trim n, email := m\<rparr>)),
       st\<lparr>users := AList.update k (old\<lparr>name := trim n, email := m\<rparr>) (users st)\<rparr>)"
    using putUser_valid [of seg k st old data errors n m] by simp
  with g show "\<exists>s u st'. getProp data (js ''email'') = Inr (JString s) \<and>
           putUser seg data st = (Response 200 (UserBody u), st') \<and> email u = s"
    by simp
qed

text \<open>
  The accepted email \<open>a@b.c\<close> is its own trim.
\<close>

theorem accepted_email_is_trimmed_witness: "trim (js ''a@b.c'') = js ''a@b.c''"
  using accepted_email_is_trimmed
      [THEN conjunct1, rule_format, of "mkBody ''Ann'' ''a@b.c''" True "[]"]
    validate_mkBody_ok
  by (auto simp: getProp_mkBody)

end
